theory Spec2Isabelle
  imports Main "HOL-Library.Word" "HOL-Library.AList"
begin

section \<open>JavaScript strings\<close>

text \<open>
  A JavaScript string is a sequence of UTF-16 code units. \<open>length\<close>, \<open>slice\<close>,
  regular expressions without the \<open>u\<close> flag and \<open>trim\<close> all work on code units, so
  a string is modelled as a list of 16-bit words. \<open>js\<close> turns an ASCII literal into
  such a list.
\<close>

type_synonym jschar = "16 word"
type_synonym jsstring = "jschar list"

definition code_unit :: "char \<Rightarrow> jschar" where
  "code_unit c = of_nat (of_char c)"

definition js :: "string \<Rightarrow> jsstring" where
  "js s = map code_unit s"

text \<open>
  The code units that \<open>\s\<close> matches and that \<open>String.prototype.trim\<close> removes:
  ECMAScript's WhiteSpace and LineTerminator productions.
\<close>

definition is_js_space :: "jschar \<Rightarrow> bool" where
  "is_js_space c = (c \<in> set [0x09, 0x0A, 0x0B, 0x0C, 0x0D, 0x20, 0xA0, 0x1680, 0x2000, 0x2001,
     0x2002, 0x2003, 0x2004, 0x2005, 0x2006, 0x2007, 0x2008, 0x2009, 0x200A, 0x2028, 0x2029,
     0x202F, 0x205F, 0x3000, 0xFEFF])"

definition trim_js :: "jsstring \<Rightarrow> jsstring" where
  "trim_js s = rev (dropWhile is_js_space (rev (dropWhile is_js_space s)))"

text \<open>\<open>text.slice(a, b)\<close> for non-negative \<open>a\<close> and \<open>b\<close>.\<close>

definition slice_js :: "jsstring \<Rightarrow> nat \<Rightarrow> nat \<Rightarrow> jsstring" where
  "slice_js s a b = take (b - a) (drop a s)"

text \<open>
  \<open>toLowerCase\<close> on the ASCII range. The source applies it only to a match of the
  thinking-tag pattern, whose code units are ASCII letters, \<open><\<close>, \<open>/\<close>, \<open>>\<close> and
  white space; on those the full Unicode mapping is this one.
\<close>

definition lower_unit :: "jschar \<Rightarrow> jschar" where
  "lower_unit c = (if 0x41 \<le> c \<and> c \<le> 0x5A then c + 0x20 else c)"

definition toLowerCase :: "jsstring \<Rightarrow> jsstring" where
  "toLowerCase s = map lower_unit s"

section \<open>Regular expressions\<close>

text \<open>
  The fragment of ECMAScript regular expressions the source uses: a single code unit
  from a class, concatenation, a greedy optional group and a greedy star over a class.
  \<open>rx_match e s\<close> lists what is left of \<open>s\<close> after each way of matching \<open>e\<close> at the
  start of \<open>s\<close>, in the order in which the backtracking matcher tries them; the head of
  the list is the match the engine reports.
\<close>

datatype rx = Eps | Chr "jschar \<Rightarrow> bool" | Cat rx rx | Opt rx | Star "jschar \<Rightarrow> bool"

fun rx_match :: "rx \<Rightarrow> jsstring \<Rightarrow> jsstring list" where
  "rx_match Eps s = [s]"
| "rx_match (Chr p) [] = []"
| "rx_match (Chr p) (c # cs) = (if p c then [cs] else [])"
| "rx_match (Cat a b) s = concat (map (rx_match b) (rx_match a s))"
| "rx_match (Opt a) s = rx_match a s @ [s]"
| "rx_match (Star p) [] = [[]]"
| "rx_match (Star p) (c # cs) = (if p c then rx_match (Star p) cs @ [c # cs] else [c # cs])"

text \<open>
  \<open>RegExp.prototype.exec\<close> from index 0: the leftmost position with a match, as
  (index, length of the match).
\<close>

fun rx_exec :: "rx \<Rightarrow> jsstring \<Rightarrow> (nat \<times> nat) option" where
  "rx_exec e [] = (case rx_match e [] of [] \<Rightarrow> None | r # _ \<Rightarrow> Some (0, 0))"
| "rx_exec e (c # cs) = (case rx_match e (c # cs) of
       r # _ \<Rightarrow> Some (0, length (c # cs) - length r)
     | [] \<Rightarrow> map_option (\<lambda>(i, n). (Suc i, n)) (rx_exec e cs))"

definition rx_test :: "rx \<Rightarrow> jsstring \<Rightarrow> bool" where
  "rx_test e s = (rx_exec e s \<noteq> None)"

text \<open>The whole of \<open>w\<close> is one match of \<open>e\<close>.\<close>

definition rx_full :: "rx \<Rightarrow> jsstring \<Rightarrow> bool" where
  "rx_full e w = ([] \<in> set (rx_match e w))"

text \<open>\<open>text.replace(e, "")\<close> for a pattern without the \<open>g\<close> flag: the first match goes.\<close>

definition rx_remove_first :: "rx \<Rightarrow> jsstring \<Rightarrow> jsstring" where
  "rx_remove_first e s = (case rx_exec e s of None \<Rightarrow> s | Some (i, n) \<Rightarrow> take i s @ drop (i + n) s)"

text \<open>
  A pattern with the \<open>g\<close> flag keeps \<open>lastIndex\<close> between calls. \<open>test\<close> starts there,
  and leaves the end of the match, or 0 when there is none.
\<close>

definition rx_test_global :: "rx \<Rightarrow> nat \<Rightarrow> jsstring \<Rightarrow> bool \<times> nat" where
  "rx_test_global e lastIndex s =
     (if length s < lastIndex then (False, 0)
      else case rx_exec e (drop lastIndex s) of
             None \<Rightarrow> (False, 0)
           | Some (i, n) \<Rightarrow> (True, lastIndex + i + n))"

text \<open>
  \<open>text.matchAll(e)\<close>: the successive matches, each as (index in the text, matched
  string). \<open>off\<close> is the index in the text at which \<open>s\<close> starts. After an empty match
  the search moves on by one code unit, and stops beyond the end of the text.
\<close>

function rx_matchAll_from :: "rx \<Rightarrow> nat \<Rightarrow> jsstring \<Rightarrow> (nat \<times> jsstring) list" where
  "rx_matchAll_from e off s =
     (case rx_exec e s of
        None \<Rightarrow> []
      | Some (i, n) \<Rightarrow>
          (off + i, take n (drop i s)) #
          (let k = i + (if n = 0 then 1 else n)
           in if length s < k then [] else rx_matchAll_from e (off + k) (drop k s)))"
  by pat_completeness auto
termination
  by (relation "measure (\<lambda>(e, off, s). length s)") auto

declare rx_matchAll_from.simps [simp del]

definition rx_matchAll :: "rx \<Rightarrow> jsstring \<Rightarrow> (nat \<times> jsstring) list" where
  "rx_matchAll e s = rx_matchAll_from e 0 s"

subsection \<open>The patterns of the source\<close>

text \<open>
  With the \<open>i\<close> flag and without the \<open>u\<close> flag a letter of the pattern matches its
  lower-case and its upper-case ASCII code unit and nothing else.
\<close>

definition lit :: "char \<Rightarrow> rx" where
  "lit l = Chr (\<lambda>c. c = code_unit l)"

definition ci :: "char \<Rightarrow> rx" where
  "ci l = Chr (\<lambda>c. c = code_unit l \<or> c = code_unit l - 0x20)"

definition seq :: "rx list \<Rightarrow> rx" where
  "seq xs = foldr Cat xs Eps"

definition THINKING_TAG_RE :: rx where
  "THINKING_TAG_RE = seq [lit CHR ''<'', Star is_js_space, Opt (lit CHR ''/''), Star is_js_space,
     ci CHR ''t'', ci CHR ''h'', ci CHR ''i'', ci CHR ''n'', ci CHR ''k'',
     Opt (seq [ci CHR ''i'', ci CHR ''n'', ci CHR ''g'']), Star is_js_space, lit CHR ''>'']"

definition THINKING_OPEN_RE :: rx where
  "THINKING_OPEN_RE = seq [lit CHR ''<'', Star is_js_space,
     ci CHR ''t'', ci CHR ''h'', ci CHR ''i'', ci CHR ''n'', ci CHR ''k'',
     Opt (seq [ci CHR ''i'', ci CHR ''n'', ci CHR ''g'']), Star is_js_space, lit CHR ''>'']"

definition THINKING_CLOSE_RE :: rx where
  "THINKING_CLOSE_RE = seq [lit CHR ''<'', Star is_js_space, lit CHR ''/'', Star is_js_space,
     ci CHR ''t'', ci CHR ''h'', ci CHR ''i'', ci CHR ''n'', ci CHR ''k'',
     Opt (seq [ci CHR ''i'', ci CHR ''n'', ci CHR ''g'']), Star is_js_space, lit CHR ''>'']"

definition FINAL_START_RE :: rx where
  "FINAL_START_RE = seq [lit CHR ''<'', Star is_js_space,
     ci CHR ''f'', ci CHR ''i'', ci CHR ''n'', ci CHR ''a'', ci CHR ''l'',
     Star is_js_space, lit CHR ''>'']"

definition FINAL_END_RE :: rx where
  "FINAL_END_RE = seq [lit CHR ''<'', Star is_js_space, lit CHR ''/'', Star is_js_space,
     ci CHR ''f'', ci CHR ''i'', ci CHR ''n'', ci CHR ''a'', ci CHR ''l'',
     Star is_js_space, lit CHR ''>'']"

section \<open>Thinking segments and final tags\<close>

text \<open>
  \<open>stripThinkingSegments\<close>, with the \<open>lastIndex\<close> of the shared global pattern as
  explicit state. The loop over \<open>matchAll\<close> is a left fold over the matches with the
  loop's three variables \<open>result\<close>, \<open>lastIndex\<close> and \<open>inThinking\<close>.
\<close>

definition strip_step ::
  "jsstring \<Rightarrow> jsstring \<times> nat \<times> bool \<Rightarrow> nat \<times> jsstring \<Rightarrow> jsstring \<times> nat \<times> bool" where
  "strip_step txt st m =
     (case st of (result, lastIndex, inThinking) \<Rightarrow>
      case m of (idx, tag0) \<Rightarrow>
        ((if \<not> inThinking then result @ slice_js txt lastIndex idx else result),
         idx + length tag0,
         \<not> (code_unit CHR ''/'' \<in> set (toLowerCase tag0))))"

definition stripThinkingSegments_st :: "nat \<Rightarrow> jsstring \<Rightarrow> jsstring \<times> nat" where
  "stripThinkingSegments_st reLastIndex txt =
     (if txt = [] then (txt, reLastIndex)
      else case rx_test_global THINKING_TAG_RE reLastIndex txt of
        (False, li) \<Rightarrow> (txt, li)
      | (True, li) \<Rightarrow>
          (case foldl (strip_step txt) ([], 0, False) (rx_matchAll THINKING_TAG_RE txt) of
             (result, lastIndex, inThinking) \<Rightarrow>
               ((if \<not> inThinking then result @ drop lastIndex txt else result), 0)))"

text \<open>
  Every call leaves the pattern's \<open>lastIndex\<close> at 0 (lemma \<open>stripThinkingSegments_lastIndex\<close>
  below), so every call starts from 0.
\<close>

definition stripThinkingSegments :: "jsstring \<Rightarrow> jsstring" where
  "stripThinkingSegments txt = fst (stripThinkingSegments_st 0 txt)"

definition stripUnpairedThinkingTags :: "jsstring \<Rightarrow> jsstring" where
  "stripUnpairedThinkingTags txt =
     (if txt = [] then txt
      else let hasOpen = rx_test THINKING_OPEN_RE txt;
               hasClose = rx_test THINKING_CLOSE_RE txt
           in if hasOpen \<and> hasClose then txt
              else if \<not> hasOpen then rx_remove_first THINKING_CLOSE_RE txt
              else if \<not> hasClose then rx_remove_first THINKING_OPEN_RE txt
              else txt)"

definition sanitizeFinalText :: "jsstring \<Rightarrow> jsstring" where
  "sanitizeFinalText txt =
     (if txt = [] then txt
      else let hasStart = rx_test FINAL_START_RE txt;
               hasEnd = rx_test FINAL_END_RE txt
           in if hasStart \<and> \<not> hasEnd then rx_remove_first FINAL_START_RE txt
              else if \<not> hasStart \<and> hasEnd then rx_remove_first FINAL_END_RE txt
              else txt)"

definition extractFinalText :: "jsstring \<Rightarrow> jsstring option" where
  "extractFinalText txt =
     (let cleaned = sanitizeFinalText txt
      in case rx_exec FINAL_START_RE cleaned of
           None \<Rightarrow> None
         | Some (startAt, startLen) \<Rightarrow>
             (let startIndex = startAt + startLen;
                  afterStart = drop startIndex cleaned;
                  endIndex = (case rx_exec FINAL_END_RE afterStart of
                                Some (endAt, endLen) \<Rightarrow> endAt
                              | None \<Rightarrow> length afterStart)
              in Some (take endIndex afterStart)))"

text \<open>
  The two expressions of the \<open>message_update\<close> handler: the cleaned view of the delta
  buffer, and the text \<open>next\<close> derived from it.
\<close>

definition cleaned_view :: "bool \<Rightarrow> jsstring \<Rightarrow> jsstring" where
  "cleaned_view enforce deltaBuffer =
     (if enforce then stripThinkingSegments (stripUnpairedThinkingTags deltaBuffer)
      else stripThinkingSegments deltaBuffer)"

definition next_text :: "bool \<Rightarrow> jsstring \<Rightarrow> jsstring" where
  "next_text enforce cleaned =
     (if enforce then (case extractFinalText cleaned of
                         Some t \<Rightarrow> trim_js t
                       | None \<Rightarrow> trim_js cleaned)
      else trim_js cleaned)"

section \<open>JavaScript values\<close>

text \<open>
  Tool results, messages and thrown values are arbitrary JavaScript values. An object
  is its list of own properties in order; \<open>AList.update\<close> is the object spread with
  one property overridden (an existing key keeps its place, a new one goes last). The
  only numbers the code makes are lengths, so a number is an integer here.
\<close>

datatype jsval =
    JUndefined
  | JNull
  | JBool bool
  | JNum int
  | JStr jsstring
  | JArr "jsval list"
  | JObj "(jsstring \<times> jsval) list"

fun truthy :: "jsval \<Rightarrow> bool" where
  "truthy JUndefined = False"
| "truthy JNull = False"
| "truthy (JBool b) = b"
| "truthy (JNum n) = (n \<noteq> 0)"
| "truthy (JStr s) = (s \<noteq> [])"
| "truthy (JArr xs) = True"
| "truthy (JObj ps) = True"

definition get_prop :: "(jsstring \<times> jsval) list \<Rightarrow> jsstring \<Rightarrow> jsval" where
  "get_prop ps k = (case map_of ps k of Some v \<Rightarrow> v | None \<Rightarrow> JUndefined)"

text \<open>\<open>v?.k\<close> for a named property: undefined unless \<open>v\<close> is an object that has it.\<close>

definition js_prop :: "jsval \<Rightarrow> jsstring \<Rightarrow> jsval" where
  "js_prop v k = (case v of JObj ps \<Rightarrow> get_prop ps k | _ \<Rightarrow> JUndefined)"

text \<open>\<open>typeof v === "string" ? v : undefined\<close>.\<close>

definition str_of :: "jsval \<Rightarrow> jsstring option" where
  "str_of v = (case v of JStr s \<Rightarrow> Some s | _ \<Rightarrow> None)"

section \<open>Sanitizing tool results\<close>

definition TOOL_RESULT_MAX_CHARS :: nat where
  "TOOL_RESULT_MAX_CHARS = 8000"

definition TRUNCATION_MARKER :: jsstring where
  "TRUNCATION_MARKER = [0x0A, 0x2026] @ js ''(truncated)'' @ [0x2026]"

definition truncateToolText :: "jsstring \<Rightarrow> jsstring" where
  "truncateToolText txt =
     (if length txt \<le> TOOL_RESULT_MAX_CHARS then txt
      else take TOOL_RESULT_MAX_CHARS txt @ TRUNCATION_MARKER)"

text \<open>The callback of \<open>content.map\<close> in \<open>sanitizeToolResult\<close>.\<close>

definition sanitize_item :: "jsval \<Rightarrow> jsval" where
  "sanitize_item item =
     (case item of
        JObj entry \<Rightarrow>
          (let ty = str_of (get_prop entry (js ''type''))
           in case (if ty = Some (js ''text'') then str_of (get_prop entry (js ''text'')) else None) of
                Some t \<Rightarrow> JObj (AList.update (js ''text'') (JStr (truncateToolText t)) entry)
              | None \<Rightarrow>
                  if ty = Some (js ''image'') then
                    (let data = str_of (get_prop entry (js ''data''));
                         bytes = (case data of
                                    Some d \<Rightarrow> if d \<noteq> [] then JNum (int (length d)) else JUndefined
                                  | None \<Rightarrow> JUndefined);
                         cleaned = AList.delete (js ''data'') entry
                     in JObj (AList.update (js ''omitted'') (JBool True)
                               (AList.update (js ''bytes'') bytes cleaned)))
                  else item)
      | _ \<Rightarrow> item)"

definition sanitizeToolResult :: "jsval \<Rightarrow> jsval" where
  "sanitizeToolResult result =
     (case result of
        JObj rec \<Rightarrow>
          (case get_prop rec (js ''content'') of
             JArr content \<Rightarrow> JObj (AList.update (js ''content'') (JArr (map sanitize_item content)) rec)
           | _ \<Rightarrow> result)
      | _ \<Rightarrow> result)"

section \<open>The stream interpreter\<close>

text \<open>
  Functions the interpreter and the runner import from modules that are not part of
  the sources at hand. They are parameters of the model.
\<close>

record deps =
  inferToolMetaFromArgs :: "jsstring \<Rightarrow> jsval \<Rightarrow> jsstring option"
  formatToolAggregate :: "jsstring \<Rightarrow> jsstring list option \<Rightarrow> jsstring"
  splitMediaFromOutput :: "jsstring \<Rightarrow> jsstring \<times> jsstring list option"
  extractAssistantText :: "jsval \<Rightarrow> jsstring"
  formatAssistantErrorText :: "jsval \<Rightarrow> jsstring option"

datatype brk = BreakTextEnd | BreakMessageEnd

text \<open>
  The parameters of a run that the interpreter and the payload assembly read. An
  observer is a flag (supplied or not); what it is called with goes to the log of
  notifications. \<open>shouldEmitToolResult\<close> holds the predicate's answer when one is supplied.
\<close>

record params =
  enforceFinalTag :: bool
  blockReplyBreak :: brk
  verboseOn :: bool
  shouldEmitToolResult :: "bool option"
  onToolResult :: bool
  onBlockReply :: bool
  onPartialReply :: bool
  onAgentEvent :: bool

datatype agent_data =
    ToolStartData jsstring jsstring "jsval option"
  | ToolUpdateData jsstring jsstring "jsval option"
  | ToolResultData jsstring jsstring "jsstring option" bool "jsval option"
  | AssistantData jsstring "jsstring list option"

datatype notification =
    EmitAgentEvent agent_data
  | OnAgentEvent agent_data
  | PartialReply jsstring "jsstring list option"
  | BlockReply jsstring "jsstring list option"
  | ToolResultReply jsstring "jsstring list option"
  | CompactionWaitResolved

text \<open>The variables \<open>subscribeEmbeddedPiSession\<close> closes over, and the log of what it sent.\<close>

record interp =
  assistantTexts :: "jsstring list"
  toolMetas :: "(jsstring \<times> jsstring option) list"
  toolMetaById :: "(jsstring \<times> jsstring option) list"
  deltaBuffer :: jsstring
  lastStreamedAssistant :: "jsstring option"
  lastBlockReplyText :: "jsstring option"
  assistantTextBaseline :: nat
  compactionInFlight :: bool
  pendingCompactionRetry :: int
  compactionRetryPromise :: bool
  debouncerPending :: "(jsstring \<times> jsstring option) list"
  emitted :: "notification list"

definition init_interp :: interp where
  "init_interp = \<lparr> assistantTexts = [], toolMetas = [], toolMetaById = [], deltaBuffer = [],
     lastStreamedAssistant = None, lastBlockReplyText = None, assistantTextBaseline = 0,
     compactionInFlight = False, pendingCompactionRetry = 0, compactionRetryPromise = False,
     debouncerPending = [], emitted = [] \<rparr>"

text \<open>\<open>mediaUrls?.length ? mediaUrls : undefined\<close>.\<close>

definition media_or_undefined :: "jsstring list option \<Rightarrow> jsstring list option" where
  "media_or_undefined m = (case m of Some us \<Rightarrow> if us \<noteq> [] then Some us else None | None \<Rightarrow> None)"

definition has_media :: "jsstring list option \<Rightarrow> bool" where
  "has_media m = (case m of Some us \<Rightarrow> us \<noteq> [] | None \<Rightarrow> False)"

text \<open>\<open>meta ? [meta] : undefined\<close> and \<open>meta ? [meta] : []\<close>.\<close>

definition meta_or_undefined :: "jsstring option \<Rightarrow> jsstring list option" where
  "meta_or_undefined m = (case m of Some s \<Rightarrow> if s \<noteq> [] then Some [s] else None | None \<Rightarrow> None)"

definition meta_or_empty :: "jsstring option \<Rightarrow> jsstring list" where
  "meta_or_empty m = (case m of Some s \<Rightarrow> if s \<noteq> [] then [s] else [] | None \<Rightarrow> [])"

text \<open>
  Modelled from the spec: the Tool-Update Debouncer (\<open>createToolDebouncer\<close> is not among
  the sources). \<open>push\<close> buffers a (tool name, metadata) pair; \<open>flush\<close> emits one
  aggregated notification per tool name covering all pushes since the last flush, and a
  second \<open>flush\<close> right after emits nothing. The background timer is left out. The
  notification is the callback \<open>subscribeEmbeddedPiSession\<close> passes in.
\<close>

definition debouncer_groups :: "(jsstring \<times> jsstring option) list \<Rightarrow> (jsstring \<times> jsstring list) list" where
  "debouncer_groups ps =
     map (\<lambda>n. (n, List.map_filter (\<lambda>(n', m). if n' = n then m else None) ps)) (remdups (map fst ps))"

definition debouncer_callback :: "deps \<Rightarrow> params \<Rightarrow> jsstring \<times> jsstring list \<Rightarrow> notification list" where
  "debouncer_callback d p g =
     (case g of (toolName, metas) \<Rightarrow>
        if \<not> onPartialReply p then []
        else (case splitMediaFromOutput d (formatToolAggregate d toolName (Some metas)) of
                (cleanedText, mediaUrls) \<Rightarrow> [PartialReply cleanedText (media_or_undefined mediaUrls)]))"

definition debouncer_flush :: "deps \<Rightarrow> params \<Rightarrow> interp \<Rightarrow> interp" where
  "debouncer_flush d p st =
     st\<lparr> emitted := emitted st @ concat (map (debouncer_callback d p) (debouncer_groups (debouncerPending st))),
         debouncerPending := [] \<rparr>"

definition ensureCompactionPromise :: "interp \<Rightarrow> interp" where
  "ensureCompactionPromise st = (if \<not> compactionRetryPromise st then st\<lparr> compactionRetryPromise := True \<rparr> else st)"

definition noteCompactionRetry :: "interp \<Rightarrow> interp" where
  "noteCompactionRetry st = ensureCompactionPromise (st\<lparr> pendingCompactionRetry := pendingCompactionRetry st + 1 \<rparr>)"

text \<open>
  \<open>compactionRetryResolve?.()\<close> and the two assignments after it: a pending promise is
  resolved and forgotten.
\<close>

definition resolve_compaction_wait :: "interp \<Rightarrow> interp" where
  "resolve_compaction_wait st =
     st\<lparr> emitted := emitted st @ (if compactionRetryPromise st then [CompactionWaitResolved] else []),
         compactionRetryPromise := False \<rparr>"

definition resolveCompactionRetry :: "interp \<Rightarrow> interp" where
  "resolveCompactionRetry st =
     (if pendingCompactionRetry st \<le> 0 then st
      else let st1 = st\<lparr> pendingCompactionRetry := pendingCompactionRetry st - 1 \<rparr>
           in if pendingCompactionRetry st1 = 0 \<and> \<not> compactionInFlight st1
              then resolve_compaction_wait st1 else st1)"

definition maybeResolveCompactionWait :: "interp \<Rightarrow> interp" where
  "maybeResolveCompactionWait st =
     (if pendingCompactionRetry st = 0 \<and> \<not> compactionInFlight st
      then resolve_compaction_wait st else st)"

definition resetForCompactionRetry :: "deps \<Rightarrow> params \<Rightarrow> interp \<Rightarrow> interp" where
  "resetForCompactionRetry d p st =
     debouncer_flush d p
       (st\<lparr> assistantTexts := [], toolMetas := [], toolMetaById := [], deltaBuffer := [],
            lastStreamedAssistant := None, lastBlockReplyText := None,
            assistantTextBaseline := 0 \<rparr>)"

datatype event =
    ToolExecutionStart jsstring jsstring jsval
  | ToolExecutionUpdate jsstring jsstring jsval
  | ToolExecutionEnd jsstring jsstring bool jsval
  | MessageUpdate jsval jsval
  | MessageEnd jsval
  | AgentStart
  | AutoCompactionStart
  | AutoCompactionEnd jsval
  | AgentEnd
  | OtherEvent

definition is_assistant :: "jsval \<Rightarrow> bool" where
  "is_assistant msg = (js_prop msg (js ''role'') = JStr (js ''assistant''))"

text \<open>The \<open>assistant\<close> stream event and the partial reply for a new derived text.\<close>

definition announce_text :: "deps \<Rightarrow> params \<Rightarrow> jsstring \<Rightarrow> notification list" where
  "announce_text d p nxt =
     (case splitMediaFromOutput d nxt of
        (cleanedText, mediaUrls) \<Rightarrow>
          [EmitAgentEvent (AssistantData cleanedText (media_or_undefined mediaUrls))] @
          (if onAgentEvent p then [OnAgentEvent (AssistantData cleanedText (media_or_undefined mediaUrls))] else []) @
          (if onPartialReply p then [PartialReply cleanedText (media_or_undefined mediaUrls)] else []))"

definition block_reply :: "deps \<Rightarrow> jsstring \<Rightarrow> notification list" where
  "block_reply d txt =
     (case splitMediaFromOutput d txt of
        (cleanedText, mediaUrls) \<Rightarrow>
          if cleanedText \<noteq> [] \<or> has_media mediaUrls
          then [BlockReply cleanedText (media_or_undefined mediaUrls)] else [])"

text \<open>The kind of an assistant message event, and the text it carries.\<close>

definition event_type :: "jsval \<Rightarrow> jsstring" where
  "event_type assistantEvent =
     (case str_of (js_prop assistantEvent (js ''type'')) of Some t \<Rightarrow> t | None \<Rightarrow> [])"

definition event_chunk :: "jsval \<Rightarrow> jsstring" where
  "event_chunk assistantEvent =
     (case str_of (js_prop assistantEvent (js ''delta'')) of
        Some dl \<Rightarrow> dl
      | None \<Rightarrow> (case str_of (js_prop assistantEvent (js ''content'')) of
                   Some c \<Rightarrow> c | None \<Rightarrow> []))"

definition on_message_update :: "deps \<Rightarrow> params \<Rightarrow> jsval \<Rightarrow> jsval \<Rightarrow> interp \<Rightarrow> interp" where
  "on_message_update d p msg assistantEvent st =
     (if \<not> is_assistant msg then st
      else let evtType = event_type assistantEvent
      in if \<not> (evtType = js ''text_delta'' \<or> evtType = js ''text_start'' \<or> evtType = js ''text_end'') then st
      else let chunk = event_chunk assistantEvent;
               st1 = (if chunk \<noteq> [] then st\<lparr> deltaBuffer := deltaBuffer st @ chunk \<rparr> else st);
               cleaned = cleaned_view (enforceFinalTag p) (deltaBuffer st1);
               nxt = next_text (enforceFinalTag p) cleaned;
               st2 = (if nxt \<noteq> [] \<and> Some nxt \<noteq> lastStreamedAssistant st1
                      then st1\<lparr> lastStreamedAssistant := Some nxt,
                               emitted := emitted st1 @ announce_text d p nxt \<rparr>
                      else st1)
      in if evtType = js ''text_end'' \<and> blockReplyBreak p = BreakTextEnd then
           (if nxt \<noteq> [] \<and> Some nxt = lastBlockReplyText st2
            then st2\<lparr> deltaBuffer := [], lastStreamedAssistant := None \<rparr>
            else st2\<lparr> lastBlockReplyText := (if nxt \<noteq> [] then Some nxt else None),
                     assistantTexts := (if nxt \<noteq> [] then assistantTexts st2 @ [nxt] else assistantTexts st2),
                     emitted := emitted st2 @ (if nxt \<noteq> [] \<and> onBlockReply p then block_reply d nxt else []),
                     deltaBuffer := [], lastStreamedAssistant := None \<rparr>)
         else st2)"

definition on_message_end :: "deps \<Rightarrow> params \<Rightarrow> jsval \<Rightarrow> interp \<Rightarrow> interp" where
  "on_message_end d p msg st =
     (if \<not> is_assistant msg then st
      else let cleaned = cleaned_view (enforceFinalTag p) (extractAssistantText d msg);
               txt = (if enforceFinalTag p \<and> cleaned \<noteq> []
                      then (case extractFinalText cleaned of Some t \<Rightarrow> trim_js t | None \<Rightarrow> cleaned)
                      else cleaned);
               addedDuringMessage = (assistantTextBaseline st < length (assistantTexts st));
               st1 = (if \<not> addedDuringMessage \<and> txt \<noteq> []
                      then st\<lparr> assistantTexts := assistantTexts st @ [txt] \<rparr> else st);
               st2 = st1\<lparr> assistantTextBaseline := length (assistantTexts st1) \<rparr>
      in if blockReplyBreak p = BreakMessageEnd \<and> txt \<noteq> [] \<and> onBlockReply p then
           (if Some txt = lastBlockReplyText st2
            then st2\<lparr> deltaBuffer := [], lastStreamedAssistant := None \<rparr>
            else st2\<lparr> emitted := emitted st2 @ block_reply d txt,
                     deltaBuffer := [], lastStreamedAssistant := None, lastBlockReplyText := None \<rparr>)
         else st2\<lparr> deltaBuffer := [], lastStreamedAssistant := None, lastBlockReplyText := None \<rparr>)"

definition on_tool_end :: "deps \<Rightarrow> params \<Rightarrow> jsstring \<Rightarrow> jsstring \<Rightarrow> bool \<Rightarrow> jsval \<Rightarrow> interp \<Rightarrow> interp" where
  "on_tool_end d p toolName toolCallId isError result st =
     (let sanitizedResult = sanitizeToolResult result;
          meta = (case map_of (toolMetaById st) toolCallId of Some m \<Rightarrow> m | None \<Rightarrow> None);
          emitToolResult = (case shouldEmitToolResult p of Some b \<Rightarrow> b | None \<Rightarrow> verboseOn p);
          toolReply =
            (if emitToolResult \<and> onToolResult p then
               (case splitMediaFromOutput d
                       (formatToolAggregate d toolName (meta_or_undefined meta)) of
                  (cleanedText, mediaUrls) \<Rightarrow>
                    if cleanedText \<noteq> [] \<or> has_media mediaUrls
                    then [ToolResultReply cleanedText (media_or_undefined mediaUrls)] else [])
             else [])
      in st\<lparr> toolMetas := toolMetas st @ [(toolName, meta)],
             debouncerPending := debouncerPending st @ [(toolName, meta)],
             emitted := emitted st @
               [EmitAgentEvent (ToolResultData toolName toolCallId meta isError (Some sanitizedResult))] @
               (if onAgentEvent p then [OnAgentEvent (ToolResultData toolName toolCallId meta isError None)] else []) @
               toolReply \<rparr>)"

text \<open>The handler \<open>subscribeEmbeddedPiSession\<close> registers, by kind of event.\<close>

fun handle_event :: "deps \<Rightarrow> params \<Rightarrow> event \<Rightarrow> interp \<Rightarrow> interp" where
  "handle_event d p (ToolExecutionStart toolName toolCallId args) st =
     st\<lparr> toolMetaById := AList.update toolCallId (inferToolMetaFromArgs d toolName args) (toolMetaById st),
         emitted := emitted st @
           [EmitAgentEvent (ToolStartData toolName toolCallId (Some args))] @
           (if onAgentEvent p then [OnAgentEvent (ToolStartData toolName toolCallId None)] else []) \<rparr>"
| "handle_event d p (ToolExecutionUpdate toolName toolCallId partialResult) st =
     st\<lparr> emitted := emitted st @
           [EmitAgentEvent (ToolUpdateData toolName toolCallId (Some (sanitizeToolResult partialResult)))] @
           (if onAgentEvent p then [OnAgentEvent (ToolUpdateData toolName toolCallId None)] else []) \<rparr>"
| "handle_event d p (ToolExecutionEnd toolName toolCallId isError result) st =
     on_tool_end d p toolName toolCallId isError result st"
| "handle_event d p (MessageUpdate msg assistantEvent) st = on_message_update d p msg assistantEvent st"
| "handle_event d p (MessageEnd msg) st = on_message_end d p msg st"
| "handle_event d p AgentStart st = st"
| "handle_event d p AutoCompactionStart st = ensureCompactionPromise (st\<lparr> compactionInFlight := True \<rparr>)"
| "handle_event d p (AutoCompactionEnd willRetry) st =
     (let st1 = st\<lparr> compactionInFlight := False \<rparr>
      in if truthy willRetry then resetForCompactionRetry d p (noteCompactionRetry st1)
         else maybeResolveCompactionWait st1)"
| "handle_event d p AgentEnd st =
     (let st1 = debouncer_flush d p st
      in if 0 < pendingCompactionRetry st1 then resolveCompactionRetry st1
         else maybeResolveCompactionWait st1)"
| "handle_event d p OtherEvent st = st"

text \<open>
  Every subscription has variables of its own: the subscriptions of a process are a map
  from run id to the parameters and the state of that run's interpreter, and an event of
  a run's session reaches that run's handler only.
\<close>

type_synonym subscriptions = "jsstring \<rightharpoonup> params \<times> interp"

definition deliver :: "deps \<Rightarrow> jsstring \<Rightarrow> event \<Rightarrow> subscriptions \<Rightarrow> subscriptions" where
  "deliver d runId ev subs =
     (case subs runId of
        None \<Rightarrow> subs
      | Some (p, st) \<Rightarrow> subs(runId \<mapsto> (p, handle_event d p ev st)))"

section \<open>The run orchestrator\<close>

subsection \<open>The session, the run and the registry of active runs\<close>

text \<open>
  The agent session is an external object. The model keeps what the runner reads and
  what it asks of it: the streaming flag, the message history, the messages queued,
  the number of stop requests (\<open>session.abort()\<close>) and whether it was disposed.
\<close>

record session =
  isStreaming :: bool
  messages :: "jsval list"
  queuedMessages :: "jsstring list"
  abortRequests :: nat
  disposed :: bool

datatype timer = Armed | Fired | Cleared

text \<open>What the run does that the outside can see, in order.\<close>

datatype action =
    LogTimeout
  | LogStillStreaming
  | SessionAbort
  | ClearAbortTimer
  | ClearWarnTimer
  | Unsubscribe
  | FlushDebouncer
  | RegistryDelete
  | SessionDispose
  | RemoveAbortListener
  | Rethrow
  | ReturnResult

text \<open>
  The local variables of one call of \<open>runEmbeddedPiAgent\<close> from the point where the
  session exists: the \<open>aborted\<close> flag, the two timers (\<open>abortWarnTimer\<close> is undefined until
  the timeout fires), the subscription, the abort listener on the caller's signal.
\<close>

record run =
  aborted :: bool
  sess :: session
  abortTimer :: timer
  abortWarnTimer :: "timer option"
  subscribed :: bool
  hasSignal :: bool
  listening :: bool
  trace :: "action list"

text \<open>
  \<open>ACTIVE_EMBEDDED_RUNS\<close> maps a session id to the handle of a run. A handle is the
  closure of one run, so it is named by that run's number, and the process is the
  registry together with the runs.
\<close>

record world =
  ACTIVE_EMBEDDED_RUNS :: "jsstring \<rightharpoonup> nat"
  runs :: "nat \<Rightarrow> run"

definition abortRun :: "run \<Rightarrow> run" where
  "abortRun r = r\<lparr> aborted := True,
                   sess := (sess r)\<lparr> abortRequests := abortRequests (sess r) + 1 \<rparr>,
                   trace := trace r @ [SessionAbort] \<rparr>"

text \<open>The three members of the handle of run \<open>h\<close>.\<close>

definition handle_queueMessage :: "nat \<Rightarrow> jsstring \<Rightarrow> world \<Rightarrow> world" where
  "handle_queueMessage h txt w =
     w\<lparr> runs := (runs w)(h := (runs w h)\<lparr> sess := (sess (runs w h))\<lparr> queuedMessages :=
           queuedMessages (sess (runs w h)) @ [txt] \<rparr> \<rparr>) \<rparr>"

definition handle_isStreaming :: "nat \<Rightarrow> world \<Rightarrow> bool" where
  "handle_isStreaming h w = isStreaming (sess (runs w h))"

definition handle_abort :: "nat \<Rightarrow> world \<Rightarrow> world" where
  "handle_abort h w = w\<lparr> runs := (runs w)(h := abortRun (runs w h)) \<rparr>"

definition queueEmbeddedPiMessage :: "jsstring \<Rightarrow> jsstring \<Rightarrow> world \<Rightarrow> bool \<times> world" where
  "queueEmbeddedPiMessage sessionId txt w =
     (case ACTIVE_EMBEDDED_RUNS w sessionId of
        None \<Rightarrow> (False, w)
      | Some h \<Rightarrow>
          if \<not> handle_isStreaming h w then (False, w)
          else (True, handle_queueMessage h txt w))"

definition abortEmbeddedPiRun :: "jsstring \<Rightarrow> world \<Rightarrow> bool \<times> world" where
  "abortEmbeddedPiRun sessionId w =
     (case ACTIVE_EMBEDDED_RUNS w sessionId of
        None \<Rightarrow> (False, w)
      | Some h \<Rightarrow> (True, handle_abort h w))"

definition isEmbeddedPiRunActive :: "jsstring \<Rightarrow> world \<Rightarrow> bool" where
  "isEmbeddedPiRunActive sessionId w = (ACTIVE_EMBEDDED_RUNS w sessionId \<noteq> None)"

definition isEmbeddedPiRunStreaming :: "jsstring \<Rightarrow> world \<Rightarrow> bool" where
  "isEmbeddedPiRunStreaming sessionId w =
     (case ACTIVE_EMBEDDED_RUNS w sessionId of
        None \<Rightarrow> False
      | Some h \<Rightarrow> handle_isStreaming h w)"

subsection \<open>Assembling the reply payload\<close>

record reply_item =
  item_text :: jsstring
  item_media :: "jsstring list option"

record payload =
  payload_text :: "jsstring option"
  payload_mediaUrls :: "jsstring list option"
  payload_mediaUrl :: "jsstring option"

definition inlineToolResults :: "params \<Rightarrow> (jsstring \<times> jsstring option) list \<Rightarrow> bool" where
  "inlineToolResults p tms =
     (verboseOn p \<and> \<not> onPartialReply p \<and> \<not> onToolResult p \<and> 0 < length tms)"

definition tool_item :: "deps \<Rightarrow> jsstring \<times> jsstring option \<Rightarrow> reply_item list" where
  "tool_item d tm =
     (case tm of (toolName, meta) \<Rightarrow>
        (case splitMediaFromOutput d (formatToolAggregate d toolName (Some (meta_or_empty meta))) of
           (cleanedText, mediaUrls) \<Rightarrow>
             if cleanedText \<noteq> [] then [\<lparr> item_text = cleanedText, item_media = mediaUrls \<rparr>] else []))"

definition text_item :: "deps \<Rightarrow> jsstring \<Rightarrow> reply_item list" where
  "text_item d txt =
     (case splitMediaFromOutput d txt of
        (cleanedText, mediaUrls) \<Rightarrow>
          if cleanedText = [] \<and> \<not> has_media mediaUrls then []
          else [\<lparr> item_text = cleanedText, item_media = mediaUrls \<rparr>])"

definition lastAssistant :: "jsval list \<Rightarrow> jsval option" where
  "lastAssistant messagesSnapshot = find is_assistant (rev messagesSnapshot)"

definition error_items :: "deps \<Rightarrow> jsval option \<Rightarrow> reply_item list" where
  "error_items d la =
     (case la of
        None \<Rightarrow> []
      | Some m \<Rightarrow> (case formatAssistantErrorText d m of
                     Some errorText \<Rightarrow>
                       if errorText \<noteq> [] then [\<lparr> item_text = errorText, item_media = None \<rparr>] else []
                   | None \<Rightarrow> []))"

definition replyItems ::
  "deps \<Rightarrow> params \<Rightarrow> (jsstring \<times> jsstring option) list \<Rightarrow> jsstring list \<Rightarrow> jsval option \<Rightarrow> reply_item list" where
  "replyItems d p tms texts la =
     error_items d la @
     (if inlineToolResults p tms then concat (map (tool_item d) tms) else []) @
     concat (map (text_item d)
       (if texts \<noteq> [] then texts
        else (case la of Some m \<Rightarrow> [extractAssistantText d m] | None \<Rightarrow> [])))"

definition to_payload :: "reply_item \<Rightarrow> payload" where
  "to_payload item =
     \<lparr> payload_text = (if trim_js (item_text item) \<noteq> [] then Some (trim_js (item_text item)) else None),
       payload_mediaUrls = media_or_undefined (item_media item),
       payload_mediaUrl = (case item_media item of Some (u # us) \<Rightarrow> Some u | _ \<Rightarrow> None) \<rparr>"

definition keep_payload :: "payload \<Rightarrow> bool" where
  "keep_payload pl =
     ((case payload_text pl of Some t \<Rightarrow> t \<noteq> [] | None \<Rightarrow> False) \<or>
      (case payload_mediaUrl pl of Some u \<Rightarrow> u \<noteq> [] | None \<Rightarrow> False) \<or>
      (case payload_mediaUrls pl of Some us \<Rightarrow> 0 < length us | None \<Rightarrow> False))"

definition payloads_of :: "reply_item list \<Rightarrow> payload list" where
  "payloads_of items = filter keep_payload (map to_payload items)"

record run_result =
  result_payloads :: "payload list option"
  result_aborted :: bool

definition assemble_result ::
  "deps \<Rightarrow> params \<Rightarrow> (jsstring \<times> jsstring option) list \<Rightarrow> jsstring list \<Rightarrow> jsval list \<Rightarrow> bool \<Rightarrow> run_result" where
  "assemble_result d p tms texts messagesSnapshot ab =
     (let pls = payloads_of (replyItems d p tms texts (lastAssistant messagesSnapshot))
      in \<lparr> result_payloads = (if pls \<noteq> [] then Some pls else None), result_aborted = ab \<rparr>)"

subsection \<open>Abort, timeout and the prompt\<close>

text \<open>
  What can happen while the run waits (for the prompt, or for the compaction retry):
  the timeout timer fires, the warning timer fires, the caller's signal aborts, someone
  calls \<open>abort\<close> on the handle, or a later run of the same session id installs its own
  handle in the registry.
\<close>

datatype env_event = TimeoutFires | WarnTimerFires | SignalAborts | HandleAbortCalled | HandleReplaced nat

definition on_timeout :: "run \<Rightarrow> run" where
  "on_timeout r =
     (if abortTimer r \<noteq> Armed then r
      else let r1 = abortRun (r\<lparr> abortTimer := Fired, trace := trace r @ [LogTimeout] \<rparr>)
           in if abortWarnTimer r1 = None then r1\<lparr> abortWarnTimer := Some Armed \<rparr> else r1)"

definition on_warn_timer :: "run \<Rightarrow> run" where
  "on_warn_timer r =
     (if abortWarnTimer r \<noteq> Some Armed then r
      else let r1 = r\<lparr> abortWarnTimer := Some Fired \<rparr>
           in if \<not> isStreaming (sess r1) then r1 else r1\<lparr> trace := trace r1 @ [LogStillStreaming] \<rparr>)"

text \<open>The listener \<open>onAbort\<close>, attached with \<open>once: true\<close>.\<close>

definition on_signal :: "run \<Rightarrow> run" where
  "on_signal r = (if \<not> listening r then r else abortRun (r\<lparr> listening := False \<rparr>))"

fun env_step :: "jsstring \<Rightarrow> nat \<Rightarrow> env_event \<Rightarrow> world \<Rightarrow> world" where
  "env_step sid h TimeoutFires w = w\<lparr> runs := (runs w)(h := on_timeout (runs w h)) \<rparr>"
| "env_step sid h WarnTimerFires w = w\<lparr> runs := (runs w)(h := on_warn_timer (runs w h)) \<rparr>"
| "env_step sid h SignalAborts w = w\<lparr> runs := (runs w)(h := on_signal (runs w h)) \<rparr>"
| "env_step sid h HandleAbortCalled w = handle_abort h w"
| "env_step sid h (HandleReplaced h') w = w\<lparr> ACTIVE_EMBEDDED_RUNS := (ACTIVE_EMBEDDED_RUNS w)(sid \<mapsto> h') \<rparr>"

definition env_steps :: "jsstring \<Rightarrow> nat \<Rightarrow> env_event list \<Rightarrow> world \<Rightarrow> world" where
  "env_steps sid h evs w = foldl (\<lambda>w ev. env_step sid h ev w) w evs"

text \<open>
  From \<open>let aborted = ...\<close> to the wiring of the abort signal: the handle is registered,
  the interpreter subscribed, the timeout armed. \<open>signal\<close> is \<open>None\<close> when the caller gave
  no abort signal, and otherwise whether the signal is aborted already.
\<close>

definition begin_run :: "jsstring \<Rightarrow> nat \<Rightarrow> bool option \<Rightarrow> session \<Rightarrow> world \<Rightarrow> world" where
  "begin_run sid h signal s w =
     (let r0 = \<lparr> aborted = (signal = Some True), sess = s, abortTimer = Armed,
                 abortWarnTimer = None, subscribed = True, hasSignal = (signal \<noteq> None),
                 listening = False, trace = [] \<rparr>;
          r1 = (case signal of
                  None \<Rightarrow> r0
                | Some True \<Rightarrow> abortRun r0
                | Some False \<Rightarrow> r0\<lparr> listening := True \<rparr>)
      in w\<lparr> ACTIVE_EMBEDDED_RUNS := (ACTIVE_EMBEDDED_RUNS w)(sid \<mapsto> h), runs := (runs w)(h := r1) \<rparr>)"

text \<open>The outer \<open>finally\<close> block.\<close>

definition cleanup :: "jsstring \<Rightarrow> nat \<Rightarrow> world \<Rightarrow> world" where
  "cleanup sid h w =
     (let r = runs w h;
          owner = (ACTIVE_EMBEDDED_RUNS w sid = Some h);
          r' = r\<lparr> abortTimer := (if abortTimer r = Armed then Cleared else abortTimer r),
                  abortWarnTimer := None,
                  subscribed := False,
                  sess := (sess r)\<lparr> disposed := True \<rparr>,
                  listening := False,
                  trace := trace r @ [ClearAbortTimer] @
                    (if abortWarnTimer r \<noteq> None then [ClearWarnTimer] else []) @
                    [Unsubscribe, FlushDebouncer] @
                    (if owner then [RegistryDelete] else []) @
                    [SessionDispose] @
                    (if hasSignal r then [RemoveAbortListener] else []) \<rparr>
      in w\<lparr> ACTIVE_EMBEDDED_RUNS := (if owner then (ACTIVE_EMBEDDED_RUNS w)(sid := None)
                                      else ACTIVE_EMBEDDED_RUNS w),
            runs := (runs w)(h := r') \<rparr>)"

datatype prompt_outcome = PromptResolves | PromptRejects jsval

datatype run_exit = Thrown jsval | Returned run_result

definition log_exit :: "nat \<Rightarrow> action \<Rightarrow> world \<Rightarrow> world" where
  "log_exit h a w = w\<lparr> runs := (runs w)(h := (runs w h)\<lparr> trace := trace (runs w h) @ [a] \<rparr>) \<rparr>"

text \<open>
  From \<open>let promptError = null\<close> to the \<open>return\<close>. \<open>prompt\<close> is what happens while
  \<open>session.prompt\<close> is awaited and how it settles, \<open>None\<close> if it never does; \<open>wait\<close> is
  what happens while \<open>waitForCompactionRetry\<close> is awaited, \<open>None\<close> if that promise never
  resolves. The result is \<open>None\<close> when the run never comes back. \<open>tms\<close> and \<open>texts\<close> are
  the interpreter's tool records and text blocks when the wait is over.
\<close>

definition run_prompt ::
  "deps \<Rightarrow> params \<Rightarrow> jsstring \<Rightarrow> nat \<Rightarrow> (env_event list \<times> prompt_outcome) option \<Rightarrow>
   env_event list option \<Rightarrow> (jsstring \<times> jsstring option) list \<Rightarrow> jsstring list \<Rightarrow>
   world \<Rightarrow> (world \<times> run_exit) option" where
  "run_prompt d p sid h prompt wait tms texts w =
     (case prompt of
        None \<Rightarrow> None
      | Some (evs1, outcome) \<Rightarrow>
          (let w1 = env_steps sid h evs1 w;
               promptError = (case outcome of PromptRejects err \<Rightarrow> err | PromptResolves \<Rightarrow> JNull)
           in case wait of
                None \<Rightarrow> None
              | Some evs2 \<Rightarrow>
                  (let w2 = env_steps sid h evs2 w1;
                       messagesSnapshot = messages (sess (runs w2 h));
                       w3 = cleanup sid h w2
                   in if truthy promptError \<and> \<not> aborted (runs w3 h)
                      then Some (log_exit h Rethrow w3, Thrown promptError)
                      else Some (log_exit h ReturnResult w3,
                                 Returned (assemble_result d p tms texts messagesSnapshot
                                             (aborted (runs w3 h)))))))"

section \<open>Example inputs\<close>

text \<open>Concrete sessions, runs and registries at which the theorems below are instantiated.\<close>

definition example_session :: session where
  "example_session = \<lparr> isStreaming = True, messages = [], queuedMessages = [],
     abortRequests = 0, disposed = False \<rparr>"

definition example_run :: run where
  "example_run = \<lparr> aborted = False, sess = example_session, abortTimer = Armed,
     abortWarnTimer = None, subscribed = True, hasSignal = True, listening = True, trace = [] \<rparr>"

definition example_world :: world where
  "example_world = \<lparr> ACTIVE_EMBEDDED_RUNS = [js ''s1'' \<mapsto> 0], runs = (\<lambda>h. example_run) \<rparr>"

definition example_deps :: deps where
  "example_deps = \<lparr> inferToolMetaFromArgs = (\<lambda>toolName args. str_of (js_prop args (js ''path''))),
     formatToolAggregate = (\<lambda>toolName metas. toolName),
     splitMediaFromOutput = (\<lambda>txt. (txt, None)),
     extractAssistantText = (\<lambda>msg. case str_of (js_prop msg (js ''content'')) of Some t \<Rightarrow> t | None \<Rightarrow> []),
     formatAssistantErrorText = (\<lambda>msg. None) \<rparr>"

definition example_params :: params where
  "example_params = \<lparr> enforceFinalTag = False, blockReplyBreak = BreakTextEnd, verboseOn = True,
     shouldEmitToolResult = None, onToolResult = False, onBlockReply = False,
     onPartialReply = False, onAgentEvent = False \<rparr>"

definition example_interp :: interp where
  "example_interp = init_interp\<lparr> assistantTexts := [js ''first block''],
     toolMetas := [(js ''bash'', Some (js ''ls''))],
     toolMetaById := [(js ''call-1'', Some (js ''ls''))],
     deltaBuffer := js ''partial'',
     lastStreamedAssistant := Some (js ''partial''),
     lastBlockReplyText := Some (js ''first block''),
     assistantTextBaseline := 1,
     compactionInFlight := True \<rparr>"

definition example_subs :: subscriptions where
  "example_subs = [js ''run-a'' \<mapsto> (example_params, example_interp),
                   js ''run-b'' \<mapsto> (example_params, example_interp)]"


definition example_image :: jsval where
  "example_image = JObj [(js ''type'', JStr (js ''image'')), (js ''data'', JStr (js ''QUJD'')),
                         (js ''mimeType'', JStr (js ''image/png''))]"

definition example_long_text :: jsval where
  "example_long_text = JObj [(js ''type'', JStr (js ''text'')), (js ''text'', JStr (replicate 8001 0x61))]"

definition example_bare_image :: jsval where
  "example_bare_image = JObj [(js ''type'', JStr (js ''image''))]"

definition example_fresh_world :: world where
  "example_fresh_world = begin_run (js ''s1'') 0 (Some False) example_session
     \<lparr> ACTIVE_EMBEDDED_RUNS = Map.empty, runs = (\<lambda>h. example_run) \<rparr>"

definition assistant_message :: jsval where
  "assistant_message = JObj [(js ''role'', JStr (js ''assistant''))]"

definition text_event :: "string \<Rightarrow> jsstring \<Rightarrow> jsval" where
  "text_event kind chunk = JObj [(js ''type'', JStr (js kind)), (js ''delta'', JStr chunk)]"

section \<open>Auxiliary notions for the proofs\<close>

text \<open>
  The code units that can occur in a match; a found match moved to the right; and the
  shape all five patterns share: \<open><\<close>, then code units other than \<open><\<close> and \<open>>\<close>,
  then \<open>>\<close>.
\<close>

fun rx_chars :: "rx \<Rightarrow> jschar \<Rightarrow> bool" where
  "rx_chars Eps c = False"
| "rx_chars (Chr p) c = p c"
| "rx_chars (Cat a b) c = (rx_chars a c \<or> rx_chars b c)"
| "rx_chars (Opt a) c = rx_chars a c"
| "rx_chars (Star p) c = p c"

definition shift_match :: "nat \<Rightarrow> (nat \<times> nat) option \<Rightarrow> (nat \<times> nat) option" where
  "shift_match k = map_option (\<lambda>(i, n). (k + i, n))"

definition tag_shaped :: "rx \<Rightarrow> bool" where
  "tag_shaped e = (\<forall>w. rx_full e w \<longrightarrow> (\<exists>b. w = 0x3C # b @ [0x3E] \<and> 0x3C \<notin> set b \<and> 0x3E \<notin> set b))"

text \<open>
  The loop of \<open>stripThinkingSegments\<close> started with a given \<open>inThinking\<close>, without
  the test that guards it.
\<close>

definition strip_run :: "bool \<Rightarrow> jsstring \<Rightarrow> jsstring" where
  "strip_run inT s =
     (case foldl (strip_step s) ([], 0, inT) (rx_matchAll THINKING_TAG_RE s) of
        (r, l, t) \<Rightarrow> if \<not> t then r @ drop l s else r)"

section \<open>Properties of the regular expressions\<close>

lemma rx_match_Star_iff:
  "r \<in> set (rx_match (Star p) s) \<longleftrightarrow> (\<exists>w. s = w @ r \<and> (\<forall>c\<in>set w. p c))"
proof (induction s)
  case Nil
  then show ?case by auto
next
  case (Cons c cs)
  show ?case
  proof
    assume "r \<in> set (rx_match (Star p) (c # cs))"
    then consider "r = c # cs" | "p c" "r \<in> set (rx_match (Star p) cs)"
      by (auto split: if_splits)
    then show "\<exists>w. c # cs = w @ r \<and> (\<forall>c\<in>set w. p c)"
    proof cases
      case 1
      then show ?thesis by auto
    next
      case 2
      then obtain w where "cs = w @ r" "\<forall>c\<in>set w. p c" using Cons.IH by auto
      then have "c # cs = (c # w) @ r \<and> (\<forall>x\<in>set (c # w). p x)" using 2 by simp
      then show ?thesis by blast
    qed
  next
    assume "\<exists>w. c # cs = w @ r \<and> (\<forall>c\<in>set w. p c)"
    then obtain w where w: "c # cs = w @ r" "\<forall>c\<in>set w. p c" by blast
    show "r \<in> set (rx_match (Star p) (c # cs))"
    proof (cases w)
      case Nil
      then show ?thesis using w by auto
    next
      case (Cons x xs)
      then have "x = c" "cs = xs @ r" "p c" "\<forall>c\<in>set xs. p c" using w by auto
      then show ?thesis using Cons.IH by auto
    qed
  qed
qed

lemma rx_full_Eps [simp]: "rx_full Eps w \<longleftrightarrow> w = []"
  by (auto simp: rx_full_def)

lemma rx_full_Chr [simp]: "rx_full (Chr p) w \<longleftrightarrow> (\<exists>c. w = [c] \<and> p c)"
  by (cases w) (auto simp: rx_full_def)

lemma rx_full_Star [simp]: "rx_full (Star p) w \<longleftrightarrow> (\<forall>c\<in>set w. p c)"
  by (simp add: rx_full_def rx_match_Star_iff)

lemma rx_match_iff:
  "r \<in> set (rx_match e s) \<longleftrightarrow> (\<exists>w. s = w @ r \<and> rx_full e w)"
proof (induction e arbitrary: s r)
  case Eps
  then show ?case by auto
next
  case (Chr p)
  then show ?case by (cases s) auto
next
  case (Cat a b)
  have full: "rx_full (Cat a b) w \<longleftrightarrow> (\<exists>u v. w = u @ v \<and> rx_full a u \<and> rx_full b v)" for w
  proof -
    have "rx_full (Cat a b) w \<longleftrightarrow> (\<exists>r1. r1 \<in> set (rx_match a w) \<and> rx_full b r1)"
      by (auto simp: rx_full_def)
    also have "\<dots> \<longleftrightarrow> (\<exists>r1 u. w = u @ r1 \<and> rx_full a u \<and> rx_full b r1)"
      using Cat.IH(1) by blast
    finally show ?thesis by blast
  qed
  show ?case
  proof
    assume "r \<in> set (rx_match (Cat a b) s)"
    then obtain r1 where "r1 \<in> set (rx_match a s)" "r \<in> set (rx_match b r1)" by auto
    then obtain w1 w2 where "s = w1 @ r1" "rx_full a w1" "r1 = w2 @ r" "rx_full b w2"
      using Cat.IH by blast
    then have "s = (w1 @ w2) @ r \<and> rx_full (Cat a b) (w1 @ w2)" unfolding full by auto
    then show "\<exists>w. s = w @ r \<and> rx_full (Cat a b) w" by blast
  next
    assume "\<exists>w. s = w @ r \<and> rx_full (Cat a b) w"
    then obtain u v where "s = (u @ v) @ r" "rx_full a u" "rx_full b v" using full by blast
    then have "v @ r \<in> set (rx_match a s)" "r \<in> set (rx_match b (v @ r))"
      using Cat.IH(1) [of "v @ r" s] Cat.IH(2) [of r "v @ r"] by auto
    then show "r \<in> set (rx_match (Cat a b) s)" by auto
  qed
next
  case (Opt a)
  have full: "rx_full (Opt a) w \<longleftrightarrow> w = [] \<or> rx_full a w" for w
    by (auto simp: rx_full_def)
  have "r \<in> set (rx_match (Opt a) s) \<longleftrightarrow> r \<in> set (rx_match a s) \<or> r = s"
    by auto
  also have "\<dots> \<longleftrightarrow> (\<exists>w. s = w @ r \<and> rx_full a w) \<or> r = s"
    using Opt.IH by blast
  also have "\<dots> \<longleftrightarrow> (\<exists>w. s = w @ r \<and> rx_full (Opt a) w)"
    unfolding full by auto
  finally show ?case .
next
  case (Star p)
  then show ?case by (simp add: rx_match_Star_iff)
qed

lemma rx_full_Cat [simp]:
  "rx_full (Cat a b) w \<longleftrightarrow> (\<exists>u v. w = u @ v \<and> rx_full a u \<and> rx_full b v)"
proof -
  have "rx_full (Cat a b) w \<longleftrightarrow> (\<exists>r1. r1 \<in> set (rx_match a w) \<and> rx_full b r1)"
    by (auto simp: rx_full_def)
  also have "\<dots> \<longleftrightarrow> (\<exists>r1 u. w = u @ r1 \<and> rx_full a u \<and> rx_full b r1)"
    using rx_match_iff [of _ a w] by blast
  finally show ?thesis by blast
qed

lemma rx_full_Opt [simp]: "rx_full (Opt a) w \<longleftrightarrow> w = [] \<or> rx_full a w"
  by (auto simp: rx_full_def)

lemma rx_full_chars: "rx_full e w \<Longrightarrow> c \<in> set w \<Longrightarrow> rx_chars e c"
proof (induction e arbitrary: w)
  case (Cat a b)
  then obtain u v where "w = u @ v" "rx_full a u" "rx_full b v" by auto
  then show ?case using Cat by fastforce
qed auto

lemma seq_Nil [simp]: "seq [] = Eps"
  by (simp add: seq_def)

lemma seq_Cons [simp]: "seq (x # xs) = Cat x (seq xs)"
  by (simp add: seq_def)

lemma rx_full_seq_snoc:
  "rx_full (seq (xs @ [x])) w \<longleftrightarrow> (\<exists>u v. w = u @ v \<and> rx_full (seq xs) u \<and> rx_full x v)"
proof (induction xs arbitrary: w)
  case Nil
  then show ?case by simp
next
  case (Cons y ys)
  show ?case
  proof
    assume "rx_full (seq ((y # ys) @ [x])) w"
    then obtain a b where "w = a @ b" "rx_full y a" "rx_full (seq (ys @ [x])) b" by auto
    then obtain u v where "w = a @ u @ v" "rx_full y a" "rx_full (seq ys) u" "rx_full x v"
      using Cons.IH by blast
    then have "w = (a @ u) @ v \<and> rx_full (seq (y # ys)) (a @ u) \<and> rx_full x v" by auto
    then show "\<exists>u v. w = u @ v \<and> rx_full (seq (y # ys)) u \<and> rx_full x v" by blast
  next
    assume "\<exists>u v. w = u @ v \<and> rx_full (seq (y # ys)) u \<and> rx_full x v"
    then obtain a u v where "w = (a @ u) @ v" "rx_full y a" "rx_full (seq ys) u" "rx_full x v"
      by auto
    then have "w = a @ (u @ v) \<and> rx_full y a \<and> rx_full (seq (ys @ [x])) (u @ v)"
      using Cons.IH by auto
    then show "rx_full (seq ((y # ys) @ [x])) w" by auto
  qed
qed

lemma code_unit_lt [simp]: "code_unit CHR ''<'' = 0x3C"
  by (simp add: code_unit_def)

lemma code_unit_gt [simp]: "code_unit CHR ''>'' = 0x3E"
  by (simp add: code_unit_def)

lemma code_unit_slash [simp]: "code_unit CHR ''/'' = 0x2F"
  by (simp add: code_unit_def)

lemma tag_shapedI:
  assumes "\<And>c. rx_chars (seq mids) c \<Longrightarrow> c \<noteq> 0x3C \<and> c \<noteq> 0x3E"
  shows "tag_shaped (seq (lit CHR ''<'' # mids @ [lit CHR ''>'']))"
  unfolding tag_shaped_def
proof (intro allI impI)
  fix w
  assume "rx_full (seq (lit CHR ''<'' # mids @ [lit CHR ''>''])) w"
  then obtain v where v: "w = 0x3C # v" "rx_full (seq (mids @ [lit CHR ''>''])) v"
    by (auto simp: lit_def)
  then obtain b where b: "v = b @ [0x3E]" "rx_full (seq mids) b"
    by (auto simp: rx_full_seq_snoc lit_def)
  have "0x3C \<notin> set b \<and> 0x3E \<notin> set b"
    using assms rx_full_chars [OF b(2)] by blast
  then show "\<exists>b. w = 0x3C # b @ [0x3E] \<and> 0x3C \<notin> set b \<and> 0x3E \<notin> set b"
    using v b by blast
qed

lemma tag_shaped_THINKING_TAG: "tag_shaped THINKING_TAG_RE"
proof -
  have "tag_shaped (seq (lit CHR ''<'' # [Star is_js_space, Opt (lit CHR ''/''), Star is_js_space,
     ci CHR ''t'', ci CHR ''h'', ci CHR ''i'', ci CHR ''n'', ci CHR ''k'',
     Opt (seq [ci CHR ''i'', ci CHR ''n'', ci CHR ''g'']), Star is_js_space] @ [lit CHR ''>'']))"
    by (rule tag_shapedI) (auto simp: lit_def ci_def code_unit_def is_js_space_def)
  then show ?thesis by (simp add: THINKING_TAG_RE_def)
qed


lemma shift_match_0 [simp]: "shift_match 0 x = x"
  by (cases x) (auto simp: shift_match_def)

lemma shift_match_shift [simp]: "shift_match a (shift_match b x) = shift_match (a + b) x"
  by (cases x) (auto simp: shift_match_def)

lemma shift_match_None [simp]: "shift_match k None = None"
  by (simp add: shift_match_def)

lemma shift_match_Some [simp]: "shift_match k (Some (i, n)) = Some (k + i, n)"
  by (simp add: shift_match_def)

lemma shift_match_eq_None [simp]: "shift_match k x = None \<longleftrightarrow> x = None"
  by (simp add: shift_match_def)

lemma rx_exec_Cons_nomatch:
  "rx_match e (c # cs) = [] \<Longrightarrow> rx_exec e (c # cs) = shift_match 1 (rx_exec e cs)"
  by (simp add: shift_match_def)

lemma rx_exec_None_Cons:
  "rx_exec e (c # cs) = None \<longleftrightarrow> rx_match e (c # cs) = [] \<and> rx_exec e cs = None"
  by (auto split: list.splits)

lemma rx_match_empty_iff: "rx_match e s = [] \<longleftrightarrow> (\<forall>w r. s = w @ r \<longrightarrow> \<not> rx_full e w)"
proof -
  have "rx_match e s = [] \<longleftrightarrow> (\<forall>r. r \<notin> set (rx_match e s))"
    by (cases "rx_match e s") auto
  then show ?thesis unfolding rx_match_iff by blast
qed

lemma tag_shaped_no_lt:
  assumes "tag_shaped e" "c \<noteq> 0x3C"
  shows "rx_match e (c # cs) = []"
  unfolding rx_match_empty_iff
proof (intro allI impI notI)
  fix w r
  assume "c # cs = w @ r" "rx_full e w"
  then show False using assms unfolding tag_shaped_def by (metis append_Cons list.inject)
qed

lemma tag_shaped_Nil:
  assumes "tag_shaped e"
  shows "rx_match e [] = []"
  unfolding rx_match_empty_iff
  using assms unfolding tag_shaped_def by fastforce

lemma rx_exec_skip:
  assumes "tag_shaped e" "0x3C \<notin> set b"
  shows "rx_exec e (b @ rest) = shift_match (length b) (rx_exec e rest)"
  using assms(2)
proof (induction b)
  case Nil
  then show ?case by simp
next
  case (Cons c b)
  then have "rx_match e (c # b @ rest) = []"
    using tag_shaped_no_lt [OF assms(1)] by auto
  then show ?case using Cons by (simp add: rx_exec_Cons_nomatch del: rx_exec.simps)
qed

lemma first_occurrence_unique:
  "x \<notin> set xs \<Longrightarrow> x \<notin> set xs' \<Longrightarrow> xs @ x # ys = xs' @ x # ys' \<Longrightarrow> xs = xs' \<and> ys = ys'"
proof (induction xs arbitrary: xs')
  case Nil
  then show ?case by (cases xs') auto
next
  case step: (Cons a xs)
  show ?case
  proof (cases xs')
    case Nil
    then show ?thesis using step.prems by auto
  next
    case (Cons a' zs)
    then have "a = a'" "xs @ x # ys = zs @ x # ys'" "x \<notin> set xs" "x \<notin> set zs"
      using step.prems by auto
    then have "xs = zs \<and> ys = ys'" using step.IH [of zs] by blast
    then show ?thesis using Cons \<open>a = a'\<close> by simp
  qed
qed

lemma tag_prefix_unique:
  assumes "w = 0x3C # b @ [0x3E]" "(0x3E :: jschar) \<notin> set b"
    and "t = 0x3C # b' @ [0x3E]" "(0x3E :: jschar) \<notin> set b'"
    and "w @ r = t @ r'"
  shows "w = t \<and> r = r'"
proof -
  have "b @ 0x3E # r = b' @ 0x3E # r'" using assms by simp
  then have "b = b' \<and> r = r'" using assms(2,4) first_occurrence_unique [of "0x3E" b b' r r'] by simp
  then show ?thesis using assms by simp
qed

lemma rx_exec_prefix:
  assumes "tag_shaped e" "rx_exec e pre = None" "rest = [] \<or> hd rest = 0x3C"
  shows "rx_exec e (pre @ rest) = shift_match (length pre) (rx_exec e rest)"
  using assms(2)
proof (induction pre)
  case Nil
  then show ?case by simp
next
  case (Cons c pre)
  then have nom: "rx_match e (c # pre) = []" and rec: "rx_exec e pre = None"
    by (simp_all only: rx_exec_None_Cons)
  have "rx_match e (c # pre @ rest) = []"
    unfolding rx_match_empty_iff
  proof (intro allI impI notI)
    fix w r
    assume eq: "c # pre @ rest = w @ r" and full: "rx_full e w"
    obtain b where b: "w = 0x3C # b @ [0x3E]" "0x3C \<notin> set b" "0x3E \<notin> set b"
      using assms(1) full unfolding tag_shaped_def by blast
    from eq have "(c # pre) @ rest = w @ r" by simp
    then obtain us where us: "(c # pre = w @ us \<and> us @ rest = r) \<or> ((c # pre) @ us = w \<and> rest = us @ r)"
      unfolding append_eq_append_conv2 by blast
    then show False
    proof
      assume "c # pre = w @ us \<and> us @ rest = r"
      then show False using nom full unfolding rx_match_empty_iff by blast
    next
      assume h: "(c # pre) @ us = w \<and> rest = us @ r"
      show False
      proof (cases us)
        case Nil
        then show ?thesis using h nom full unfolding rx_match_empty_iff by fastforce
      next
        case (Cons x xs)
        then have "rest \<noteq> []" "hd rest = x" using h by auto
        then have "x = 0x3C" using assms(3) by auto
        then have "0x3C \<in> set (pre @ us)" using Cons by simp
        moreover have "pre @ us = b @ [0x3E]" using h b by simp
        ultimately show False using b by auto
      qed
    qed
  qed
  then show ?case using Cons.IH [OF rec]
    by (simp add: rx_exec_Cons_nomatch del: rx_exec.simps)
qed

lemma rx_exec_at_tag:
  assumes "tag_shaped e" "tag_shaped e'" "rx_full e' t"
  shows "rx_exec e (t @ rest) =
     (if rx_full e t then Some (0, length t) else shift_match (length t) (rx_exec e rest))"
proof -
  obtain b where b: "t = 0x3C # b @ [0x3E]" "0x3C \<notin> set b" "0x3E \<notin> set b"
    using assms(2,3) unfolding tag_shaped_def by blast
  have uniq: "w = t \<and> r = rest" if eq: "t @ rest = w @ r" and full: "rx_full e w" for w r
  proof -
    obtain b' where "w = 0x3C # b' @ [0x3E]" "0x3E \<notin> set b'"
      using assms(1) full unfolding tag_shaped_def by blast
    then show ?thesis using tag_prefix_unique [OF _ _ b(1) b(3), of w b' r rest] eq by auto
  qed
  show ?thesis
  proof (cases "rx_full e t")
    case True
    then have "rest \<in> set (rx_match e (t @ rest))" unfolding rx_match_iff by blast
    then obtain r0 rs where r0: "rx_match e (t @ rest) = r0 # rs"
      by (cases "rx_match e (t @ rest)") auto
    then have "r0 \<in> set (rx_match e (t @ rest))" by simp
    then have "r0 = rest" unfolding rx_match_iff using uniq by blast
    then show ?thesis using True r0 b(1) by simp
  next
    case False
    have "rx_match e (t @ rest) = []"
      unfolding rx_match_empty_iff using uniq False by blast
    then have "rx_exec e (t @ rest) = shift_match 1 (rx_exec e ((b @ [0x3E]) @ rest))"
      using b(1) by (simp add: rx_exec_Cons_nomatch del: rx_exec.simps)
    also have "\<dots> = shift_match 1 (shift_match (length (b @ [0x3E])) (rx_exec e rest))"
      using rx_exec_skip [OF assms(1), of "b @ [0x3E]" rest] b(2) by simp
    finally show ?thesis using False b(1) by simp
  qed
qed

lemma rx_match_empty_sub:
  assumes "\<And>w. rx_full e' w \<Longrightarrow> rx_full e w" "rx_match e s = []"
  shows "rx_match e' s = []"
  using assms unfolding rx_match_empty_iff by blast

lemma rx_exec_None_sub:
  assumes "\<And>w. rx_full e' w \<Longrightarrow> rx_full e w" "rx_exec e s = None"
  shows "rx_exec e' s = None"
  using assms(2)
proof (induction s)
  case Nil
  then have "rx_match e [] = []" by (auto split: list.splits)
  then have "rx_match e' [] = []" using assms(1) rx_match_empty_sub by blast
  then show ?case by simp
next
  case (Cons c s)
  then have "rx_match e (c # s) = []" "rx_exec e s = None"
    by (simp_all only: rx_exec_None_Cons)
  then have "rx_match e' (c # s) = []" "rx_exec e' s = None"
    using assms(1) rx_match_empty_sub Cons.IH by blast+
  then show ?case by (simp only: rx_exec_None_Cons)
qed

lemma rx_exec_occurs:
  assumes "rx_full e t"
  shows "rx_exec e (u @ t @ v) \<noteq> None"
proof (induction u)
  case Nil
  have "v \<in> set (rx_match e (t @ v))" unfolding rx_match_iff using assms by blast
  then have "rx_match e (t @ v) \<noteq> []" by auto
  then show ?case by (cases "t @ v"; cases "rx_match e (t @ v)") auto
next
  case (Cons c u)
  then show ?case by (cases "rx_match e (c # u @ t @ v)") auto
qed

lemma tag_shaped_THINKING_OPEN: "tag_shaped THINKING_OPEN_RE"
proof -
  have "tag_shaped (seq (lit CHR ''<'' # [Star is_js_space,
     ci CHR ''t'', ci CHR ''h'', ci CHR ''i'', ci CHR ''n'', ci CHR ''k'',
     Opt (seq [ci CHR ''i'', ci CHR ''n'', ci CHR ''g'']), Star is_js_space] @ [lit CHR ''>'']))"
    by (rule tag_shapedI) (auto simp: lit_def ci_def code_unit_def is_js_space_def)
  then show ?thesis by (simp add: THINKING_OPEN_RE_def)
qed

lemma tag_shaped_THINKING_CLOSE: "tag_shaped THINKING_CLOSE_RE"
proof -
  have "tag_shaped (seq (lit CHR ''<'' # [Star is_js_space, lit CHR ''/'', Star is_js_space,
     ci CHR ''t'', ci CHR ''h'', ci CHR ''i'', ci CHR ''n'', ci CHR ''k'',
     Opt (seq [ci CHR ''i'', ci CHR ''n'', ci CHR ''g'']), Star is_js_space] @ [lit CHR ''>'']))"
    by (rule tag_shapedI) (auto simp: lit_def ci_def code_unit_def is_js_space_def)
  then show ?thesis by (simp add: THINKING_CLOSE_RE_def)
qed

lemma tag_shaped_FINAL_START: "tag_shaped FINAL_START_RE"
proof -
  have "tag_shaped (seq (lit CHR ''<'' # [Star is_js_space,
     ci CHR ''f'', ci CHR ''i'', ci CHR ''n'', ci CHR ''a'', ci CHR ''l'',
     Star is_js_space] @ [lit CHR ''>'']))"
    by (rule tag_shapedI) (auto simp: lit_def ci_def code_unit_def is_js_space_def)
  then show ?thesis by (simp add: FINAL_START_RE_def)
qed

lemma tag_shaped_FINAL_END: "tag_shaped FINAL_END_RE"
proof -
  have "tag_shaped (seq (lit CHR ''<'' # [Star is_js_space, lit CHR ''/'', Star is_js_space,
     ci CHR ''f'', ci CHR ''i'', ci CHR ''n'', ci CHR ''a'', ci CHR ''l'',
     Star is_js_space] @ [lit CHR ''>'']))"
    by (rule tag_shapedI) (auto simp: lit_def ci_def code_unit_def is_js_space_def)
  then show ?thesis by (simp add: FINAL_END_RE_def)
qed

text \<open>An open tag is a tag without the optional slash; a close tag is one with it.\<close>

lemma rx_full_CatI: "rx_full a u \<Longrightarrow> rx_full b v \<Longrightarrow> rx_full (Cat a b) (u @ v)"
  by (subst rx_full_Cat) blast

lemma rx_full_CatE:
  assumes "rx_full (Cat a b) w"
  obtains u v where "w = u @ v" "rx_full a u" "rx_full b v"
  using assms by (subst (asm) rx_full_Cat) blast

lemma without_slash_sub:
  assumes "rx_full (Cat l (Cat (Star p) t)) w"
  shows "rx_full (Cat l (Cat (Star p) (Cat (Opt s) (Cat (Star p) t)))) w"
proof -
  from assms obtain a r1 where w: "w = a @ r1" and a: "rx_full l a"
    and r1: "rx_full (Cat (Star p) t) r1"
    by (rule rx_full_CatE)
  from r1 obtain b c where r: "r1 = b @ c" and b: "rx_full (Star p) b" and c: "rx_full t c"
    by (rule rx_full_CatE)
  have e: "rx_full (Star p) []" by simp
  have o: "rx_full (Opt s) []" by simp
  have "rx_full (Cat l (Cat (Star p) (Cat (Opt s) (Cat (Star p) t)))) (a @ b @ [] @ [] @ c)"
    by (intro rx_full_CatI a b c e o)
  then show ?thesis using w r by simp
qed

lemma with_slash_sub:
  assumes "rx_full (Cat l (Cat (Star p) (Cat s (Cat (Star p) t)))) w"
  shows "rx_full (Cat l (Cat (Star p) (Cat (Opt s) (Cat (Star p) t)))) w"
proof -
  from assms obtain a r1 where w: "w = a @ r1" and a: "rx_full l a"
    and r1: "rx_full (Cat (Star p) (Cat s (Cat (Star p) t))) r1"
    by (rule rx_full_CatE)
  from r1 obtain b r2 where r: "r1 = b @ r2" and b: "rx_full (Star p) b"
    and r2: "rx_full (Cat s (Cat (Star p) t)) r2"
    by (rule rx_full_CatE)
  from r2 obtain d f where q: "r2 = d @ f" and d: "rx_full s d" and f: "rx_full (Cat (Star p) t) f"
    by (rule rx_full_CatE)
  have o: "rx_full (Opt s) d" using d by simp
  have "rx_full (Cat l (Cat (Star p) (Cat (Opt s) (Cat (Star p) t)))) (a @ b @ d @ f)"
    by (intro rx_full_CatI a b o f)
  then show ?thesis using w r q by simp
qed

lemma open_is_tag: "rx_full THINKING_OPEN_RE w \<Longrightarrow> rx_full THINKING_TAG_RE w"
  unfolding THINKING_OPEN_RE_def THINKING_TAG_RE_def seq_Cons by (rule without_slash_sub)

lemma close_is_tag: "rx_full THINKING_CLOSE_RE w \<Longrightarrow> rx_full THINKING_TAG_RE w"
  unfolding THINKING_CLOSE_RE_def THINKING_TAG_RE_def seq_Cons by (rule with_slash_sub)

lemma open_no_slash: "rx_full THINKING_OPEN_RE w \<Longrightarrow> 0x2F \<notin> set w"
proof
  assume "rx_full THINKING_OPEN_RE w" "0x2F \<in> set w"
  then have "rx_chars THINKING_OPEN_RE 0x2F" by (rule rx_full_chars)
  then show False
    by (simp add: THINKING_OPEN_RE_def lit_def ci_def code_unit_def is_js_space_def)
qed

lemma final_start_no_slash: "rx_full FINAL_START_RE w \<Longrightarrow> 0x2F \<notin> set w"
proof
  assume "rx_full FINAL_START_RE w" "0x2F \<in> set w"
  then have "rx_chars FINAL_START_RE 0x2F" by (rule rx_full_chars)
  then show False
    by (simp add: FINAL_START_RE_def lit_def ci_def code_unit_def is_js_space_def)
qed

lemma with_slash_has_slash:
  assumes "rx_full (Cat l (Cat (Star p) (Cat (lit CHR ''/'') t))) w"
  shows "0x2F \<in> set w"
proof -
  from assms obtain a r1 where w: "w = a @ r1"
    and r1: "rx_full (Cat (Star p) (Cat (lit CHR ''/'') t)) r1"
    by (rule rx_full_CatE)
  from r1 obtain b r2 where r: "r1 = b @ r2" and r2: "rx_full (Cat (lit CHR ''/'') t) r2"
    by (rule rx_full_CatE)
  from r2 obtain d f where "r2 = d @ f" "rx_full (lit CHR ''/'') d"
    by (rule rx_full_CatE)
  then show ?thesis using w r by (auto simp: lit_def)
qed

lemma close_has_slash: "rx_full THINKING_CLOSE_RE w \<Longrightarrow> 0x2F \<in> set w"
  unfolding THINKING_CLOSE_RE_def seq_Cons by (rule with_slash_has_slash)

lemma final_end_has_slash: "rx_full FINAL_END_RE w \<Longrightarrow> 0x2F \<in> set w"
  unfolding FINAL_END_RE_def seq_Cons by (rule with_slash_has_slash)

lemma open_not_close: "rx_full THINKING_OPEN_RE w \<Longrightarrow> \<not> rx_full THINKING_CLOSE_RE w"
  using open_no_slash close_has_slash by blast

lemma close_not_open: "rx_full THINKING_CLOSE_RE w \<Longrightarrow> \<not> rx_full THINKING_OPEN_RE w"
  using open_no_slash close_has_slash by blast

lemma final_start_not_end: "rx_full FINAL_START_RE w \<Longrightarrow> \<not> rx_full FINAL_END_RE w"
  using final_start_no_slash final_end_has_slash by blast

lemma final_end_not_start: "rx_full FINAL_END_RE w \<Longrightarrow> \<not> rx_full FINAL_START_RE w"
  using final_start_no_slash final_end_has_slash by blast

lemma lower_unit_slash: "lower_unit c = 0x2F \<longleftrightarrow> c = 0x2F"
  by (auto simp: lower_unit_def)

lemma toLowerCase_slash: "0x2F \<in> set (toLowerCase w) \<longleftrightarrow> 0x2F \<in> set w"
  by (auto simp: toLowerCase_def lower_unit_slash)


lemma rx_exec_Some_full:
  "rx_exec e s = Some (i, n) \<Longrightarrow> i + n \<le> length s \<and> rx_full e (take n (drop i s))"
proof (induction s arbitrary: i)
  case Nil
  then obtain r rs where "rx_match e [] = r # rs" "i = 0" "n = 0"
    by (auto split: list.splits)
  then have "r \<in> set (rx_match e [])" by simp
  then have "rx_full e []" unfolding rx_match_iff by auto
  then show ?case using \<open>i = 0\<close> \<open>n = 0\<close> by simp
next
  case (Cons c s)
  show ?case
  proof (cases "rx_match e (c # s)")
    case Nil
    then obtain j where "rx_exec e s = Some (j, n)" "i = Suc j" using Cons.prems by auto
    then show ?thesis using Cons.IH by fastforce
  next
    case (Cons r rs)
    then have i: "i = 0" and n: "n = length (c # s) - length r" using Cons.prems by auto
    have "r \<in> set (rx_match e (c # s))" using Cons by simp
    then obtain w where w: "c # s = w @ r" "rx_full e w" unfolding rx_match_iff by blast
    then have "length (c # s) = length w + length r" by (metis length_append)
    then have "n = length w" using n by simp
    then have "take n (c # s) = w" using w(1) by simp
    then show ?thesis using i w(2) \<open>n = length w\<close> \<open>length (c # s) = length w + length r\<close>
      by simp
  qed
qed

lemma tag_shaped_nonempty: "tag_shaped e \<Longrightarrow> rx_full e w \<Longrightarrow> w \<noteq> []"
  unfolding tag_shaped_def by blast

lemma rx_matchAll_from_None: "rx_exec e s = None \<Longrightarrow> rx_matchAll_from e off s = []"
  by (subst rx_matchAll_from.simps) simp

lemma rx_matchAll_from_Some:
  assumes "tag_shaped e" "rx_exec e s = Some (i, n)"
  shows "rx_matchAll_from e off s =
     (off + i, take n (drop i s)) # rx_matchAll_from e (off + i + n) (drop (i + n) s)"
proof -
  have b: "i + n \<le> length s" and f: "rx_full e (take n (drop i s))"
    using rx_exec_Some_full [OF assms(2)] by auto
  then have "0 < n" using tag_shaped_nonempty [OF assms(1) f] by auto
  then show ?thesis using assms(2) b
    by (subst rx_matchAll_from.simps) (simp add: Let_def add.assoc)
qed

lemma strip_fold_shift:
  assumes "tag_shaped e"
  shows "foldl (strip_step (pfx @ s)) (res, length pfx, inT) (rx_matchAll_from e (length pfx) s) =
     (case foldl (strip_step s) ([], 0, inT) (rx_matchAll_from e 0 s) of
        (r, l, t) \<Rightarrow> (res @ r, length pfx + l, t))"
proof (induction "length s" arbitrary: s pfx res inT rule: less_induct)
  case less
  show ?case
  proof (cases "rx_exec e s")
    case None
    then show ?thesis by (simp add: rx_matchAll_from_None)
  next
    case (Some p)
    obtain i n where p: "p = (i, n)" by (cases p)
    have ex: "rx_exec e s = Some (i, n)" using Some p by simp
    have b: "i + n \<le> length s" and f: "rx_full e (take n (drop i s))"
      using rx_exec_Some_full [OF ex] by auto
    have n: "0 < n" using tag_shaped_nonempty [OF assms f] by auto
    define m where "m = take n (drop i s)"
    define s' where "s' = drop (i + n) s"
    define h where "h = take (i + n) s"
    define t' where "t' = (\<not> (code_unit CHR ''/'' \<in> set (toLowerCase m)))"
    have lm: "length m = n" using b by (simp add: m_def)
    have lh: "length h = i + n" using b by (simp add: h_def)
    have hs: "h @ s' = s" by (simp add: h_def s'_def)
    have short: "length s' < length s" using n b by (simp add: s'_def)
    have ti: "take i s = take i h" using lh by (simp add: h_def min_def)
    have st1: "strip_step (pfx @ s) (res, length pfx, inT) (length pfx + i, m) =
        ((if \<not> inT then res @ take i s else res), length (pfx @ h), t')"
      by (simp add: strip_step_def slice_js_def lm lh t'_def)
    have st2: "strip_step s ([], 0, inT) (i, m) =
        ((if \<not> inT then take i s else []), length h, t')"
      by (simp add: strip_step_def slice_js_def lm lh t'_def)
    have A: "foldl (strip_step ((pfx @ h) @ s')) (r0, length (pfx @ h), t')
               (rx_matchAll_from e (length (pfx @ h)) s') =
             (case foldl (strip_step s') ([], 0, t') (rx_matchAll_from e 0 s') of
                (r, l, t) \<Rightarrow> (r0 @ r, length (pfx @ h) + l, t))" for r0
      using less [OF short] by blast
    have B: "foldl (strip_step (h @ s')) (r0, length h, t')
               (rx_matchAll_from e (length h) s') =
             (case foldl (strip_step s') ([], 0, t') (rx_matchAll_from e 0 s') of
                (r, l, t) \<Rightarrow> (r0 @ r, length h + l, t))" for r0
      using less [OF short] by blast
    have L: "foldl (strip_step (pfx @ s)) (res, length pfx, inT)
               (rx_matchAll_from e (length pfx) s) =
             foldl (strip_step ((pfx @ h) @ s')) ((if \<not> inT then res @ take i s else res),
               length (pfx @ h), t') (rx_matchAll_from e (length (pfx @ h)) s')"
      using st1 hs lh by (simp add: rx_matchAll_from_Some [OF assms ex] m_def [symmetric]
          s'_def [symmetric] add.assoc)
    have R: "foldl (strip_step s) ([], 0, inT) (rx_matchAll_from e 0 s) =
             foldl (strip_step (h @ s')) ((if \<not> inT then take i s else []), length h, t')
               (rx_matchAll_from e (length h) s')"
      using st2 hs lh by (simp add: rx_matchAll_from_Some [OF assms ex] m_def [symmetric]
          s'_def [symmetric])
    show ?thesis
      unfolding L R A B by (simp split: prod.splits)
  qed
qed

lemma strip_run_tagfree:
  "rx_exec THINKING_TAG_RE s = None \<Longrightarrow> strip_run inT s = (if inT then [] else s)"
  by (simp add: strip_run_def rx_matchAll_def rx_matchAll_from_None)

lemma strip_run_tag:
  assumes "rx_exec THINKING_TAG_RE pre = None" "rx_full THINKING_TAG_RE t"
  shows "strip_run inT (pre @ t @ rest) =
     (if inT then [] else pre) @ strip_run (0x2F \<notin> set t) rest"
proof -
  note ts = tag_shaped_THINKING_TAG
  obtain b where b: "t = 0x3C # b" using ts assms(2) unfolding tag_shaped_def by blast
  have ex: "rx_exec THINKING_TAG_RE (pre @ t @ rest) = Some (length pre, length t)"
    using rx_exec_prefix [OF ts assms(1), of "t @ rest"]
      rx_exec_at_tag [OF ts ts assms(2), of rest] assms(2) b by simp
  have ma: "rx_matchAll THINKING_TAG_RE (pre @ t @ rest) =
      (length pre, t) # rx_matchAll_from THINKING_TAG_RE (length (pre @ t)) rest"
    unfolding rx_matchAll_def by (simp add: rx_matchAll_from_Some [OF ts ex])
  have st: "strip_step (pre @ t @ rest) ([], 0, inT) (length pre, t) =
      ((if inT then [] else pre), length (pre @ t), 0x2F \<notin> set t)"
    by (simp add: strip_step_def slice_js_def toLowerCase_slash)
  have "foldl (strip_step (pre @ t @ rest)) ([], 0, inT)
          (rx_matchAll THINKING_TAG_RE (pre @ t @ rest)) =
        foldl (strip_step ((pre @ t) @ rest)) ((if inT then [] else pre), length (pre @ t),
          0x2F \<notin> set t) (rx_matchAll_from THINKING_TAG_RE (length (pre @ t)) rest)"
    unfolding ma using st by simp
  also have "\<dots> = (case foldl (strip_step rest) ([], 0, 0x2F \<notin> set t)
                        (rx_matchAll_from THINKING_TAG_RE 0 rest) of
                     (r, l, t') \<Rightarrow> ((if inT then [] else pre) @ r, length (pre @ t) + l, t'))"
    by (rule strip_fold_shift [OF ts])
  finally show ?thesis
    by (simp add: strip_run_def rx_matchAll_def split: prod.splits)
qed

lemma rx_test_global_0:
  "rx_test_global e 0 s = (case rx_exec e s of None \<Rightarrow> (False, 0) | Some (i, n) \<Rightarrow> (True, i + n))"
  by (simp add: rx_test_global_def split: option.splits)

lemma stripThinkingSegments_eq: "stripThinkingSegments s = strip_run False s"
proof (cases "rx_exec THINKING_TAG_RE s")
  case None
  then show ?thesis
    by (simp add: stripThinkingSegments_def stripThinkingSegments_st_def rx_test_global_0
        strip_run_tagfree)
next
  case (Some p)
  then have "s \<noteq> []" using tag_shaped_Nil [OF tag_shaped_THINKING_TAG] by auto
  then show ?thesis using Some
    by (simp add: stripThinkingSegments_def stripThinkingSegments_st_def rx_test_global_0
        strip_run_def split: prod.splits)
qed

lemma stripThinkingSegments_lastIndex: "snd (stripThinkingSegments_st 0 s) = 0"
  by (simp add: stripThinkingSegments_st_def rx_test_global_0 split: prod.splits option.splits bool.splits)

section \<open>The cleaned view of the assistant text\<close>

lemma rx_test_iff: "\<not> rx_test e s \<longleftrightarrow> rx_exec e s = None"
  unfolding rx_test_def by blast

lemma rx_exec_append_None:
  assumes "rx_exec e (u @ v) = None"
  shows "rx_exec e u = None \<and> rx_exec e v = None"
proof -
  have "rx_exec e u = None"
  proof (rule ccontr)
    assume "rx_exec e u \<noteq> None"
    then obtain i n where "rx_exec e u = Some (i, n)" by auto
    then have b: "i + n \<le> length u" and f: "rx_full e (take n (drop i u))"
      using rx_exec_Some_full by blast+
    have eq: "u @ v = take i u @ take n (drop i u) @ (drop (i + n) u @ v)"
      by (simp add: add.commute) (metis append_take_drop_id drop_drop add.commute)
    have "rx_exec e (take i u @ take n (drop i u) @ (drop (i + n) u @ v)) \<noteq> None"
      using f by (rule rx_exec_occurs)
    then show False using assms unfolding eq [symmetric] by blast
  qed
  moreover have "rx_exec e v = None"
  proof (rule ccontr)
    assume "rx_exec e v \<noteq> None"
    then obtain i n where "rx_exec e v = Some (i, n)" by auto
    then have f: "rx_full e (take n (drop i v))"
      using rx_exec_Some_full by blast
    have eq: "u @ v = (u @ take i v) @ take n (drop i v) @ drop (i + n) v"
      by (simp add: add.commute) (metis append_take_drop_id drop_drop add.commute)
    have "rx_exec e ((u @ take i v) @ take n (drop i v) @ drop (i + n) v) \<noteq> None"
      using f by (rule rx_exec_occurs)
    then show False using assms unfolding eq [symmetric] by blast
  qed
  ultimately show ?thesis by simp
qed

lemma tag_starts: "tag_shaped e \<Longrightarrow> rx_full e t \<Longrightarrow> t @ rest \<noteq> [] \<and> hd (t @ rest) = 0x3C"
  unfolding tag_shaped_def by fastforce

text \<open>Finding a tag behind a stretch without one.\<close>

lemma rx_exec_find:
  assumes "tag_shaped e" "rx_exec e pre = None" "rx_full e t"
  shows "rx_exec e (pre @ t @ rest) = Some (length pre, length t)"
  using rx_exec_prefix [OF assms(1,2), of "t @ rest"] rx_exec_at_tag [OF assms(1) assms(1) assms(3), of rest]
    tag_starts [OF assms(1,3), of rest] assms(3) by simp

text \<open>Passing over a tag of another kind.\<close>

lemma rx_exec_pass:
  assumes "tag_shaped e" "tag_shaped e'" "rx_exec e pre = None" "rx_full e' t" "\<not> rx_full e t"
  shows "rx_exec e (pre @ t @ rest) = shift_match (length pre + length t) (rx_exec e rest)"
  using rx_exec_prefix [OF assms(1,3), of "t @ rest"] rx_exec_at_tag [OF assms(1,2,4), of rest]
    tag_starts [OF assms(2,4), of rest] assms(5) by (simp add: add.commute)

lemma open_free: "rx_exec THINKING_TAG_RE s = None \<Longrightarrow> rx_exec THINKING_OPEN_RE s = None"
  using rx_exec_None_sub open_is_tag by blast

lemma close_free: "rx_exec THINKING_TAG_RE s = None \<Longrightarrow> rx_exec THINKING_CLOSE_RE s = None"
  using rx_exec_None_sub close_is_tag by blast

lemma stripUnpaired_both:
  assumes "rx_full THINKING_OPEN_RE opn" "rx_full THINKING_CLOSE_RE cls"
  shows "stripUnpairedThinkingTags (a @ opn @ b @ cls @ c) = a @ opn @ b @ cls @ c"
proof -
  have "rx_exec THINKING_OPEN_RE (a @ opn @ (b @ cls @ c)) \<noteq> None"
    using assms(1) by (rule rx_exec_occurs)
  moreover have "rx_exec THINKING_CLOSE_RE ((a @ opn @ b) @ cls @ c) \<noteq> None"
    using assms(2) by (rule rx_exec_occurs)
  ultimately show ?thesis by (simp add: stripUnpairedThinkingTags_def rx_test_def)
qed

lemma stripUnpaired_lone_open:
  assumes "rx_exec THINKING_TAG_RE pre = None" "rx_exec THINKING_TAG_RE post = None"
    "rx_full THINKING_OPEN_RE opn"
  shows "stripUnpairedThinkingTags (pre @ opn @ post) = pre @ post"
proof -
  have o: "rx_exec THINKING_OPEN_RE (pre @ opn @ post) = Some (length pre, length opn)"
    using rx_exec_find [OF tag_shaped_THINKING_OPEN open_free [OF assms(1)] assms(3)] .
  have c: "rx_exec THINKING_CLOSE_RE (pre @ opn @ post) = None"
    using rx_exec_pass [OF tag_shaped_THINKING_CLOSE tag_shaped_THINKING_OPEN
        close_free [OF assms(1)] assms(3) open_not_close [OF assms(3)], of post]
      close_free [OF assms(2)] by simp
  have "pre @ opn @ post \<noteq> []" using tag_starts [OF tag_shaped_THINKING_OPEN assms(3)] by simp
  then show ?thesis using o c
    by (simp add: stripUnpairedThinkingTags_def rx_test_def rx_remove_first_def)
qed

lemma stripUnpaired_lone_close:
  assumes "rx_exec THINKING_TAG_RE pre = None" "rx_exec THINKING_TAG_RE post = None"
    "rx_full THINKING_CLOSE_RE cls"
  shows "stripUnpairedThinkingTags (pre @ cls @ post) = pre @ post"
proof -
  have c: "rx_exec THINKING_CLOSE_RE (pre @ cls @ post) = Some (length pre, length cls)"
    using rx_exec_find [OF tag_shaped_THINKING_CLOSE close_free [OF assms(1)] assms(3)] .
  have o: "rx_exec THINKING_OPEN_RE (pre @ cls @ post) = None"
    using rx_exec_pass [OF tag_shaped_THINKING_OPEN tag_shaped_THINKING_CLOSE
        open_free [OF assms(1)] assms(3) close_not_open [OF assms(3)], of post]
      open_free [OF assms(2)] by simp
  have "pre @ cls @ post \<noteq> []" using tag_starts [OF tag_shaped_THINKING_CLOSE assms(3)] by simp
  then show ?thesis using o c
    by (simp add: stripUnpairedThinkingTags_def rx_test_def rx_remove_first_def)
qed

lemma strip_open:
  assumes "rx_exec THINKING_TAG_RE pre = None" "rx_full THINKING_OPEN_RE opn"
  shows "strip_run inT (pre @ opn @ rest) = (if inT then [] else pre) @ strip_run True rest"
  using strip_run_tag [OF assms(1) open_is_tag [OF assms(2)]] open_no_slash [OF assms(2)] by simp

lemma strip_close:
  assumes "rx_exec THINKING_TAG_RE pre = None" "rx_full THINKING_CLOSE_RE cls"
  shows "strip_run inT (pre @ cls @ rest) = (if inT then [] else pre) @ strip_run False rest"
  using strip_run_tag [OF assms(1) close_is_tag [OF assms(2)]] close_has_slash [OF assms(2)] by simp

lemma js_append: "js (a @ b) = js a @ js b"
  by (simp add: js_def)

text \<open>
  C1, as the code has it. Let \<open>pre\<close>, \<open>mid\<close> and \<open>post\<close> hold no thinking marker, let
  \<open>opn\<close> be an open marker and \<open>cls\<close> a close marker. With either setting of
  \<open>enforceFinalTag\<close> the cleaned view drops a paired segment, markers included, and goes
  on with what follows; text without markers is kept as it is. A stray marker is
  treated according to the setting. With \<open>enforceFinalTag\<close> set, a lone open marker or
  a lone close marker is taken out, and the text that is left goes through the removal
  of thinking segments: it is kept as it is when it holds no marker, and when the text
  before and the text after the marker join into a new marker, that marker is treated
  as any other. Without \<open>enforceFinalTag\<close>, a lone open marker starts a thinking segment
  that runs to the end of the buffer, so only the text before it is kept; a lone close
  marker is taken out and the text around it kept.
\<close>

theorem cleaned_view_thinking:
  assumes "\<not> rx_test THINKING_TAG_RE pre" "\<not> rx_test THINKING_TAG_RE mid"
    "\<not> rx_test THINKING_TAG_RE post"
    "rx_full THINKING_OPEN_RE opn" "rx_full THINKING_CLOSE_RE cls"
  shows "cleaned_view enforce (pre @ opn @ mid @ cls @ rest) = pre @ stripThinkingSegments rest \<and>
         cleaned_view enforce (pre @ opn @ mid @ cls @ post) = pre @ post \<and>
         cleaned_view enforce post = post \<and>
         cleaned_view True (pre @ opn @ post) = stripThinkingSegments (pre @ post) \<and>
         cleaned_view True (pre @ cls @ post) = stripThinkingSegments (pre @ post) \<and>
         (\<not> rx_test THINKING_TAG_RE (pre @ post) \<longrightarrow>
            cleaned_view True (pre @ opn @ post) = pre @ post \<and>
            cleaned_view True (pre @ cls @ post) = pre @ post) \<and>
         cleaned_view False (pre @ opn @ post) = pre \<and>
         cleaned_view False (pre @ cls @ post) = pre @ post"
proof -
  have pre: "rx_exec THINKING_TAG_RE pre = None" and mid: "rx_exec THINKING_TAG_RE mid = None"
    and post: "rx_exec THINKING_TAG_RE post = None"
    using assms(1-3) rx_test_iff by blast+
  have paired: "stripThinkingSegments (pre @ opn @ mid @ cls @ r) = pre @ stripThinkingSegments r" for r
    by (simp add: stripThinkingSegments_eq strip_open [OF pre assms(4)] strip_close [OF mid assms(5)])
  have free: "stripThinkingSegments s = s" if "rx_exec THINKING_TAG_RE s = None" for s
    using that by (simp add: stripThinkingSegments_eq strip_run_tagfree)
  have up: "stripUnpairedThinkingTags post = post"
    using open_free [OF post] close_free [OF post]
    by (simp add: stripUnpairedThinkingTags_def rx_test_def rx_remove_first_def)
  have lo: "cleaned_view True (pre @ opn @ post) = stripThinkingSegments (pre @ post)"
    by (simp add: cleaned_view_def stripUnpaired_lone_open [OF pre post assms(4)])
  have lc: "cleaned_view True (pre @ cls @ post) = stripThinkingSegments (pre @ post)"
    by (simp add: cleaned_view_def stripUnpaired_lone_close [OF pre post assms(5)])
  have joined: "cleaned_view True (pre @ opn @ post) = pre @ post \<and>
      cleaned_view True (pre @ cls @ post) = pre @ post"
    if "\<not> rx_test THINKING_TAG_RE (pre @ post)"
  proof -
    have "rx_exec THINKING_TAG_RE (pre @ post) = None" using that rx_test_iff by blast
    then show ?thesis unfolding lo lc by (simp add: free)
  qed
  show ?thesis
  proof (intro conjI impI)
    show "cleaned_view enforce (pre @ opn @ mid @ cls @ rest) = pre @ stripThinkingSegments rest"
      by (simp add: cleaned_view_def stripUnpaired_both [OF assms(4,5)] paired)
    show "cleaned_view enforce (pre @ opn @ mid @ cls @ post) = pre @ post"
      by (simp add: cleaned_view_def stripUnpaired_both [OF assms(4,5)] paired free [OF post])
    show "cleaned_view enforce post = post"
      by (simp add: cleaned_view_def up free [OF post])
    show "cleaned_view True (pre @ opn @ post) = stripThinkingSegments (pre @ post)"
      by (rule lo)
    show "cleaned_view True (pre @ cls @ post) = stripThinkingSegments (pre @ post)"
      by (rule lc)
    show "cleaned_view True (pre @ opn @ post) = pre @ post"
      if "\<not> rx_test THINKING_TAG_RE (pre @ post)"
      using joined [OF that] by simp
    show "cleaned_view True (pre @ cls @ post) = pre @ post"
      if "\<not> rx_test THINKING_TAG_RE (pre @ post)"
      using joined [OF that] by simp
    show "cleaned_view False (pre @ opn @ post) = pre"
      by (simp add: cleaned_view_def stripThinkingSegments_eq strip_open [OF pre assms(4)]
          strip_run_tagfree [OF post])
    show "cleaned_view False (pre @ cls @ post) = pre @ post"
      by (simp add: cleaned_view_def stripThinkingSegments_eq strip_close [OF pre assms(5)]
          strip_run_tagfree [OF post])
  qed
qed

theorem cleaned_view_thinking_witness:
  "cleaned_view True (js ''<think>x</think>Hello'') = js ''Hello'' \<and>
   cleaned_view False (js ''<think>x</think>Hello'') = js ''Hello'' \<and>
   cleaned_view True (js ''a<think>partial... Hello'') = js ''apartial... Hello'' \<and>
   cleaned_view False (js ''a<think>partial... Hello'') = js ''a'' \<and>
   cleaned_view True (js ''a</thinking>partial... Hello'') = js ''apartial... Hello'' \<and>
   cleaned_view False (js ''a</thinking>partial... Hello'') = js ''apartial... Hello'' \<and>
   cleaned_view True (js ''<thi<think>nk>foo'') = [] \<and>
   cleaned_view True (js ''a</thi</think>nk>b'') = js ''ab''"
proof -
  have h: "\<not> rx_test THINKING_TAG_RE []" "\<not> rx_test THINKING_TAG_RE (js ''x'')"
    "\<not> rx_test THINKING_TAG_RE (js ''Hello'')"
    "rx_full THINKING_OPEN_RE (js ''<think>'')" "rx_full THINKING_CLOSE_RE (js ''</think>'')"
    by code_simp+
  have g: "\<not> rx_test THINKING_TAG_RE (js ''a'')"
    "\<not> rx_test THINKING_TAG_RE (js ''partial... Hello'')"
    "rx_full THINKING_CLOSE_RE (js ''</thinking>'')"
    "\<not> rx_test THINKING_TAG_RE (js ''a'' @ js ''partial... Hello'')"
    by code_simp+
  have k: "\<not> rx_test THINKING_TAG_RE (js ''<thi'')" "\<not> rx_test THINKING_TAG_RE (js ''nk>foo'')"
    "\<not> rx_test THINKING_TAG_RE (js ''a</thi'')" "\<not> rx_test THINKING_TAG_RE (js ''nk>b'')"
    "stripThinkingSegments (js ''<thi'' @ js ''nk>foo'') = []"
    "stripThinkingSegments (js ''a</thi'' @ js ''nk>b'') = js ''ab''"
    by code_simp+
  have e: "[] @ js ''<think>'' @ js ''x'' @ js ''</think>'' @ js ''Hello'' = js ''<think>x</think>Hello''"
    "js ''a'' @ js ''<think>'' @ js ''partial... Hello'' = js ''a<think>partial... Hello''"
    "js ''a'' @ js ''</thinking>'' @ js ''partial... Hello'' = js ''a</thinking>partial... Hello''"
    "js ''a'' @ js ''partial... Hello'' = js ''apartial... Hello''"
    "js ''<thi'' @ js ''<think>'' @ js ''nk>foo'' = js ''<thi<think>nk>foo''"
    "js ''a</thi'' @ js ''</think>'' @ js ''nk>b'' = js ''a</thi</think>nk>b''"
    by (simp_all add: js_def)
  note a = cleaned_view_thinking [OF h, of True "[]"]
  note b = cleaned_view_thinking [OF h, of False "[]"]
  note c = cleaned_view_thinking [OF g(1) h(2) g(2) h(4) g(3), of True "[]"]
  note m = cleaned_view_thinking [OF k(1) h(2) k(2) h(4) h(5), of True "[]"]
  note n = cleaned_view_thinking [OF k(3) h(2) k(4) h(4) h(5), of True "[]"]
  have one: "cleaned_view True (js ''<think>x</think>Hello'') = js ''Hello''"
    using a unfolding e by simp
  have two: "cleaned_view False (js ''<think>x</think>Hello'') = js ''Hello''"
    using b unfolding e by simp
  have three: "cleaned_view True (js ''a<think>partial... Hello'') = js ''apartial... Hello''"
    "cleaned_view True (js ''a</thinking>partial... Hello'') = js ''apartial... Hello''"
    using c g(4) unfolding e by blast+
  have four: "cleaned_view False (js ''a<think>partial... Hello'') = js ''a''"
    "cleaned_view False (js ''a</thinking>partial... Hello'') = js ''apartial... Hello''"
    using c unfolding e by blast+
  have five: "cleaned_view True (js ''<thi<think>nk>foo'') = []"
    using m k(5) unfolding e by simp
  have six: "cleaned_view True (js ''a</thi</think>nk>b'') = js ''ab''"
    using n k(6) unfolding e by simp
  show ?thesis using one two three four five six by blast
qed

text \<open>
  Without \<open>enforceFinalTag\<close> the buffer \<open><think>partial... Hello\<close> gives the empty text:
  everything after the marker is dropped. With it the buffer gives \<open>partial... Hello\<close>,
  the whole text without the marker, which is not \<open>Hello\<close>.
\<close>

theorem unpaired_thinking_marker_counterexample:
  "cleaned_view False (js ''<think>partial... Hello'') = [] \<and>
   cleaned_view True (js ''<think>partial... Hello'') = js ''partial... Hello'' \<and>
   js ''partial... Hello'' \<noteq> js ''Hello''"
  by code_simp

section \<open>Final tags\<close>



text \<open>A lone marker: the sanitized text has no start marker left, so nothing is extracted.\<close>

lemma extractFinalText_lone_start:
  assumes "rx_exec FINAL_START_RE (pre @ post) = None" "rx_exec FINAL_END_RE (pre @ post) = None"
    "rx_full FINAL_START_RE opn"
  shows "extractFinalText (pre @ opn @ post) = None"
proof -
  have pre: "rx_exec FINAL_START_RE pre = None" "rx_exec FINAL_END_RE pre = None"
    and post: "rx_exec FINAL_END_RE post = None"
    using rx_exec_append_None assms(1,2) by blast+
  have s: "rx_exec FINAL_START_RE (pre @ opn @ post) = Some (length pre, length opn)"
    using rx_exec_find [OF tag_shaped_FINAL_START pre(1) assms(3)] .
  have e: "rx_exec FINAL_END_RE (pre @ opn @ post) = None"
    using rx_exec_pass [OF tag_shaped_FINAL_END tag_shaped_FINAL_START pre(2) assms(3)
        final_start_not_end [OF assms(3)], of post] post by simp
  have "pre @ opn @ post \<noteq> []" using tag_starts [OF tag_shaped_FINAL_START assms(3)] by simp
  then have "sanitizeFinalText (pre @ opn @ post) = pre @ post"
    using s e by (simp add: sanitizeFinalText_def rx_test_def rx_remove_first_def)
  then show ?thesis using assms(1) by (simp add: extractFinalText_def)
qed

lemma extractFinalText_lone_end:
  assumes "rx_exec FINAL_START_RE (pre @ post) = None" "rx_exec FINAL_END_RE (pre @ post) = None"
    "rx_full FINAL_END_RE cls"
  shows "extractFinalText (pre @ cls @ post) = None"
proof -
  have pre: "rx_exec FINAL_START_RE pre = None" "rx_exec FINAL_END_RE pre = None"
    and post: "rx_exec FINAL_START_RE post = None"
    using rx_exec_append_None assms(1,2) by blast+
  have e: "rx_exec FINAL_END_RE (pre @ cls @ post) = Some (length pre, length cls)"
    using rx_exec_find [OF tag_shaped_FINAL_END pre(2) assms(3)] .
  have s: "rx_exec FINAL_START_RE (pre @ cls @ post) = None"
    using rx_exec_pass [OF tag_shaped_FINAL_START tag_shaped_FINAL_END pre(1) assms(3)
        final_end_not_start [OF assms(3)], of post] post by simp
  have "pre @ cls @ post \<noteq> []" using tag_starts [OF tag_shaped_FINAL_END assms(3)] by simp
  then have "sanitizeFinalText (pre @ cls @ post) = pre @ post"
    using s e by (simp add: sanitizeFinalText_def rx_test_def rx_remove_first_def)
  then show ?thesis using assms(1) by (simp add: extractFinalText_def)
qed

text \<open>
  So with \<open>enforceFinalTag\<close> set, the text derived from a cleaned view whose only final
  marker is a lone one still has the marker in it.
\<close>

lemma next_text_lone_marker:
  assumes "rx_exec FINAL_START_RE (pre @ post) = None" "rx_exec FINAL_END_RE (pre @ post) = None"
    "rx_full FINAL_START_RE m \<or> rx_full FINAL_END_RE m"
  shows "next_text True (pre @ m @ post) = trim_js (pre @ m @ post)"
  using assms extractFinalText_lone_start [of pre post m] extractFinalText_lone_end [of pre post m]
  by (auto simp: next_text_def)




text \<open>
  C2 at the stream \<open><final>Hi\<close> with \<open>enforceFinalTag\<close> set: \<open>sanitizeFinalText\<close> does take
  the lone marker out, but then \<open>extractFinalText\<close> finds no start marker in what is left
  and returns undefined, and the handler falls back to the cleaned view it started from.
  The finalized block is \<open><final>Hi\<close>, marker included; likewise \<open>Hi</final>\<close> for a lone
  end marker.
\<close>

theorem lone_final_marker_kept:
  "assistantTexts (handle_event example_deps (example_params\<lparr> enforceFinalTag := True \<rparr>)
     (MessageUpdate assistant_message (text_event ''text_end'' (js ''<final>Hi''))) init_interp) =
     [js ''<final>Hi''] \<and>
   assistantTexts (handle_event example_deps (example_params\<lparr> enforceFinalTag := True \<rparr>)
     (MessageUpdate assistant_message (text_event ''text_end'' (js ''Hi</final>''))) init_interp) =
     [js ''Hi</final>''] \<and>
   sanitizeFinalText (js ''<final>Hi'') = js ''Hi'' \<and>
   extractFinalText (js ''<final>Hi'') = None"
  by code_simp

section \<open>The registry of active runs\<close>

text \<open>
  C10. \<open>queueEmbeddedPiMessage\<close> answers true exactly when a handle is registered for
  the session id and that handle says the session is streaming; then the message is
  queued on that run's session and nothing else changes, and otherwise nothing changes
  at all. \<open>abortEmbeddedPiRun\<close> answers false and changes nothing when no handle is
  registered; when one is, it answers true after calling the handle's \<open>abort\<close>, which
  sets the run's \<open>aborted\<close> flag and sends one stop request to the session.
\<close>

theorem queue_and_abort_by_registry:
  "(fst (queueEmbeddedPiMessage sid txt w) \<longleftrightarrow>
      (\<exists>h. ACTIVE_EMBEDDED_RUNS w sid = Some h \<and> isStreaming (sess (runs w h)))) \<and>
   (\<not> fst (queueEmbeddedPiMessage sid txt w) \<longrightarrow> snd (queueEmbeddedPiMessage sid txt w) = w) \<and>
   (\<forall>h. ACTIVE_EMBEDDED_RUNS w sid = Some h \<and> isStreaming (sess (runs w h)) \<longrightarrow>
      snd (queueEmbeddedPiMessage sid txt w) =
        w\<lparr> runs := (runs w)(h := (runs w h)\<lparr> sess := (sess (runs w h))\<lparr> queuedMessages :=
              queuedMessages (sess (runs w h)) @ [txt] \<rparr> \<rparr>) \<rparr>) \<and>
   (ACTIVE_EMBEDDED_RUNS w sid = None \<longrightarrow> abortEmbeddedPiRun sid w = (False, w)) \<and>
   (\<forall>h. ACTIVE_EMBEDDED_RUNS w sid = Some h \<longrightarrow>
      abortEmbeddedPiRun sid w = (True, w\<lparr> runs := (runs w)(h := abortRun (runs w h)) \<rparr>) \<and>
      aborted (runs (snd (abortEmbeddedPiRun sid w)) h) \<and>
      abortRequests (sess (runs (snd (abortEmbeddedPiRun sid w)) h)) =
        abortRequests (sess (runs w h)) + 1)"
  by (auto simp: queueEmbeddedPiMessage_def abortEmbeddedPiRun_def handle_isStreaming_def
      handle_queueMessage_def handle_abort_def abortRun_def split: option.splits)

lemma example_registry:
  "ACTIVE_EMBEDDED_RUNS example_world (js ''s1'') = Some 0"
  "ACTIVE_EMBEDDED_RUNS example_world (js ''s2'') = None"
  "isStreaming (sess (runs example_world 0))"
  by (simp_all add: example_world_def example_run_def example_session_def js_def code_unit_def)

theorem queue_and_abort_by_registry_witness:
  "fst (queueEmbeddedPiMessage (js ''s1'') (js ''hello'') example_world) \<and>
   queuedMessages (sess (runs (snd (queueEmbeddedPiMessage (js ''s1'') (js ''hello'') example_world)) 0))
     = [js ''hello''] \<and>
   queueEmbeddedPiMessage (js ''s2'') (js ''hello'') example_world = (False, example_world) \<and>
   abortEmbeddedPiRun (js ''s2'') example_world = (False, example_world) \<and>
   fst (abortEmbeddedPiRun (js ''s1'') example_world) \<and>
   aborted (runs (snd (abortEmbeddedPiRun (js ''s1'') example_world)) 0)"
proof -
  note q1 = queue_and_abort_by_registry [of "js ''s1''" "js ''hello''" example_world]
  note q2 = queue_and_abort_by_registry [of "js ''s2''" "js ''hello''" example_world]
  have a: "fst (queueEmbeddedPiMessage (js ''s1'') (js ''hello'') example_world)"
    using q1 example_registry by blast
  have b: "snd (queueEmbeddedPiMessage (js ''s1'') (js ''hello'') example_world) =
      example_world\<lparr> runs := (runs example_world)(0 := (runs example_world 0)\<lparr> sess :=
        (sess (runs example_world 0))\<lparr> queuedMessages :=
          queuedMessages (sess (runs example_world 0)) @ [js ''hello''] \<rparr> \<rparr>) \<rparr>"
    using q1 example_registry by blast
  have c: "\<not> fst (queueEmbeddedPiMessage (js ''s2'') (js ''hello'') example_world)"
    using q2 example_registry by simp
  then have c': "snd (queueEmbeddedPiMessage (js ''s2'') (js ''hello'') example_world) = example_world"
    using q2 by blast
  have d: "abortEmbeddedPiRun (js ''s2'') example_world = (False, example_world)"
    using q2 example_registry by blast
  have e: "abortEmbeddedPiRun (js ''s1'') example_world =
      (True, example_world\<lparr> runs := (runs example_world)(0 := abortRun (runs example_world 0)) \<rparr>)"
    using q1 example_registry by blast
  have f: "aborted (runs (snd (abortEmbeddedPiRun (js ''s1'') example_world)) 0)"
    using q1 example_registry by blast
  have b': "queuedMessages (sess (runs (snd (queueEmbeddedPiMessage (js ''s1'') (js ''hello'')
      example_world)) 0)) = [js ''hello'']"
    unfolding b by (simp add: example_world_def example_run_def example_session_def)
  have c'': "queueEmbeddedPiMessage (js ''s2'') (js ''hello'') example_world = (False, example_world)"
    using c c' by (simp add: prod_eq_iff)
  have e': "fst (abortEmbeddedPiRun (js ''s1'') example_world)"
    unfolding e by simp
  show ?thesis
    using a b' c'' d e' f by blast
qed

section \<open>Abort\<close>

lemma abortRun_funpow:
  "(abortRun ^^ n) r = r\<lparr> aborted := (0 < n \<or> aborted r),
      sess := (sess r)\<lparr> abortRequests := abortRequests (sess r) + n \<rparr>,
      trace := trace r @ replicate n SessionAbort \<rparr>"
proof (induction n)
  case 0
  then show ?case by simp
next
  case (Suc n)
  then show ?case by (simp add: abortRun_def replicate_append_same)
qed

text \<open>
  C5, as the code has it. \<open>abortRun\<close> is idempotent on the \<open>aborted\<close> flag: after one
  call it is set, and a second call leaves it set. The stop request is not guarded:
  every call sends one more \<open>session.abort()\<close>, so the state after two calls is the state
  after one with one more stop request; after \<open>n\<close> calls the session has received \<open>n\<close>
  requests.
\<close>

theorem abort_flag_idempotent_requests_counted:
  "aborted (abortRun r) \<and>
   aborted (abortRun (abortRun r)) = aborted (abortRun r) \<and>
   abortRun (abortRun r) = (abortRun r)\<lparr>
      sess := (sess (abortRun r))\<lparr> abortRequests := abortRequests (sess (abortRun r)) + 1 \<rparr>,
      trace := trace (abortRun r) @ [SessionAbort] \<rparr> \<and>
   aborted ((abortRun ^^ n) r) = (0 < n \<or> aborted r) \<and>
   abortRequests (sess ((abortRun ^^ n) r)) = abortRequests (sess r) + n"
  by (simp add: abortRun_funpow) (simp add: abortRun_def)

theorem abort_flag_idempotent_requests_counted_witness:
  "aborted (abortRun example_run) \<and>
   aborted (abortRun (abortRun example_run)) \<and>
   abortRequests (sess ((abortRun ^^ 3) example_run)) = 3"
  using abort_flag_idempotent_requests_counted [of example_run 3]
  by (simp add: example_run_def example_session_def)

text \<open>
  Two calls do not leave the state of one call: the session has two stop requests, not
  a single one. This happens in a run whose abort signal is aborted before the run
  starts and whose timeout fires afterwards.
\<close>

theorem abort_twice_counterexample:
  "abortRun (abortRun example_run) \<noteq> abortRun example_run \<and>
   abortRequests (sess (abortRun example_run)) = 1 \<and>
   abortRequests (sess (abortRun (abortRun example_run))) = 2 \<and>
   abortRequests (sess (runs (env_step (js ''s1'') 0 TimeoutFires
      (begin_run (js ''s1'') 0 (Some True) example_session example_world)) 0)) = 2"
  by (simp add: abortRun_def example_run_def example_session_def begin_run_def on_timeout_def)

section \<open>Compaction retry\<close>

lemma debouncer_flush_fields [simp]:
  "assistantTexts (debouncer_flush d p st) = assistantTexts st"
  "toolMetas (debouncer_flush d p st) = toolMetas st"
  "toolMetaById (debouncer_flush d p st) = toolMetaById st"
  "deltaBuffer (debouncer_flush d p st) = deltaBuffer st"
  "lastStreamedAssistant (debouncer_flush d p st) = lastStreamedAssistant st"
  "lastBlockReplyText (debouncer_flush d p st) = lastBlockReplyText st"
  "assistantTextBaseline (debouncer_flush d p st) = assistantTextBaseline st"
  "compactionInFlight (debouncer_flush d p st) = compactionInFlight st"
  "pendingCompactionRetry (debouncer_flush d p st) = pendingCompactionRetry st"
  "compactionRetryPromise (debouncer_flush d p st) = compactionRetryPromise st"
  "debouncerPending (debouncer_flush d p st) = []"
  by (simp_all add: debouncer_flush_def)

text \<open>
  C4. When a compaction-end event says a retry will follow, the counter of pending
  retries goes up by one and the text accumulator (finalized blocks, delta buffer, both
  dedupe values) and the tool call records (the list and the cache by call id) are
  empty afterwards; compaction is no longer in flight. The interpreter state of every
  other subscribed run is what it was.
\<close>

theorem compaction_retry_resets:
  assumes "truthy willRetry"
  shows "pendingCompactionRetry (handle_event d p (AutoCompactionEnd willRetry) st) =
           pendingCompactionRetry st + 1 \<and>
         assistantTexts (handle_event d p (AutoCompactionEnd willRetry) st) = [] \<and>
         deltaBuffer (handle_event d p (AutoCompactionEnd willRetry) st) = [] \<and>
         lastStreamedAssistant (handle_event d p (AutoCompactionEnd willRetry) st) = None \<and>
         lastBlockReplyText (handle_event d p (AutoCompactionEnd willRetry) st) = None \<and>
         toolMetas (handle_event d p (AutoCompactionEnd willRetry) st) = [] \<and>
         toolMetaById (handle_event d p (AutoCompactionEnd willRetry) st) = [] \<and>
         \<not> compactionInFlight (handle_event d p (AutoCompactionEnd willRetry) st) \<and>
         (\<forall>subs runId other. subs runId = Some (p, st) \<and> other \<noteq> runId \<longrightarrow>
            deliver d runId (AutoCompactionEnd willRetry) subs other = subs other \<and>
            deliver d runId (AutoCompactionEnd willRetry) subs runId =
              Some (p, handle_event d p (AutoCompactionEnd willRetry) st))"
  using assms
  by (simp add: resetForCompactionRetry_def noteCompactionRetry_def ensureCompactionPromise_def
      deliver_def Let_def)


theorem compaction_retry_resets_witness:
  "truthy (JBool True) \<and>
   assistantTexts example_interp \<noteq> [] \<and> toolMetas example_interp \<noteq> [] \<and>
   assistantTexts (handle_event example_deps example_params (AutoCompactionEnd (JBool True))
     example_interp) = [] \<and>
   toolMetas (handle_event example_deps example_params (AutoCompactionEnd (JBool True))
     example_interp) = [] \<and>
   pendingCompactionRetry (handle_event example_deps example_params (AutoCompactionEnd (JBool True))
     example_interp) = 1 \<and>
   deliver example_deps (js ''run-a'') (AutoCompactionEnd (JBool True)) example_subs (js ''run-b'') =
     Some (example_params, example_interp)"
proof -
  have t: "truthy (JBool True)" by simp
  note r = compaction_retry_resets [OF t, of example_deps example_params example_interp]
  have s: "example_subs (js ''run-a'') = Some (example_params, example_interp)"
    "js ''run-b'' \<noteq> js ''run-a''"
    "example_subs (js ''run-b'') = Some (example_params, example_interp)"
    by (simp_all add: example_subs_def js_def code_unit_def)
  have d: "deliver example_deps (js ''run-a'') (AutoCompactionEnd (JBool True)) example_subs
      (js ''run-b'') = example_subs (js ''run-b'')"
    using r s(1,2) by blast
  have i: "assistantTexts example_interp \<noteq> []" "toolMetas example_interp \<noteq> []"
    "pendingCompactionRetry example_interp = 0"
    by (simp_all add: example_interp_def init_interp_def)
  show ?thesis using t r d s(3) i by simp
qed

section \<open>The reply payload\<close>

text \<open>
  C8, as the code has it. The inline tool-result summaries are among the reply items
  exactly when verbose mode is on, no partial-reply observer and no tool-result observer
  was supplied, and there is at least one tool record. With a tool-result observer, with
  a partial-reply observer, or without verbose mode, the reply items are those of a run
  without tool records.
\<close>

theorem inline_tool_results_gate:
  "(inlineToolResults p tms \<longleftrightarrow>
      verboseOn p \<and> \<not> onPartialReply p \<and> \<not> onToolResult p \<and> tms \<noteq> []) \<and>
   replyItems d p tms texts la =
     error_items d la @
     (if verboseOn p \<and> \<not> onPartialReply p \<and> \<not> onToolResult p
      then concat (map (tool_item d) tms) else []) @
     concat (map (text_item d)
       (if texts \<noteq> [] then texts
        else (case la of Some m \<Rightarrow> [extractAssistantText d m] | None \<Rightarrow> []))) \<and>
   (onToolResult p \<or> onPartialReply p \<or> \<not> verboseOn p \<longrightarrow>
      replyItems d p tms texts la = replyItems d p [] texts la)"
  by (auto simp: inlineToolResults_def replyItems_def)

theorem inline_tool_results_gate_witness:
  "replyItems example_deps example_params [(js ''bash'', Some (js ''ls''))] [] None =
     [\<lparr> item_text = js ''bash'', item_media = None \<rparr>] \<and>
   replyItems example_deps (example_params\<lparr> onToolResult := True \<rparr>)
     [(js ''bash'', Some (js ''ls''))] [] None = []"
  using inline_tool_results_gate [of example_params "[(js ''bash'', Some (js ''ls''))]"
      example_deps "[]" None]
    inline_tool_results_gate [of "example_params\<lparr> onToolResult := True \<rparr>"
      "[(js ''bash'', Some (js ''ls''))]" example_deps "[]" None]
  by (simp add: example_params_def example_deps_def tool_item_def error_items_def js_def
      replyItems_def inlineToolResults_def)

text \<open>
  Verbose mode on, no tool-result observer, one tool record, and still no inline
  summary: a partial-reply observer was supplied.
\<close>

theorem inline_tool_results_counterexample:
  "verboseOn (example_params\<lparr> onPartialReply := True \<rparr>) \<and>
   \<not> onToolResult (example_params\<lparr> onPartialReply := True \<rparr>) \<and>
   [(js ''bash'', Some (js ''ls''))] \<noteq> [] \<and>
   \<not> inlineToolResults (example_params\<lparr> onPartialReply := True \<rparr>) [(js ''bash'', Some (js ''ls''))] \<and>
   replyItems example_deps (example_params\<lparr> onPartialReply := True \<rparr>)
     [(js ''bash'', Some (js ''ls''))] [] None = []"
  by (simp add: example_params_def example_deps_def error_items_def
      replyItems_def inlineToolResults_def)






section \<open>Sanitized tool results\<close>

lemma get_prop_update: "get_prop (AList.update k v al) k' = (if k' = k then v else get_prop al k')"
  by (simp add: get_prop_def update_conv')

lemma get_prop_delete: "get_prop (AList.delete k al) k' = (if k' = k then JUndefined else get_prop al k')"
  by (simp add: get_prop_def delete_conv')

lemma get_prop_Some: "get_prop al k = v \<Longrightarrow> v \<noteq> JUndefined \<Longrightarrow> map_of al k = Some v"
  by (auto simp: get_prop_def split: option.splits)

lemma js_keys_distinct:
  "js ''data'' \<noteq> js ''bytes''" "js ''data'' \<noteq> js ''omitted''" "js ''bytes'' \<noteq> js ''omitted''"
  "js ''text'' \<noteq> js ''image''" "js ''image'' \<noteq> js ''text''"
  by (simp_all add: js_def code_unit_def)

lemma sanitize_item_text:
  assumes "get_prop entry (js ''type'') = JStr (js ''text'')" "get_prop entry (js ''text'') = JStr t"
  shows "sanitize_item (JObj entry) = JObj (AList.update (js ''text'') (JStr (truncateToolText t)) entry)"
  using assms by (simp add: sanitize_item_def str_of_def)

lemma sanitize_item_text_short:
  assumes "get_prop entry (js ''type'') = JStr (js ''text'')" "get_prop entry (js ''text'') = JStr t"
    "length t \<le> 8000"
  shows "sanitize_item (JObj entry) = JObj entry"
proof -
  have "map_of entry (js ''text'') = Some (JStr t)" using assms(2) by (simp add: get_prop_Some)
  then have "AList.update (js ''text'') (JStr t) entry = entry" by (rule update_triv)
  then show ?thesis using assms
    by (simp add: sanitize_item_text truncateToolText_def TOOL_RESULT_MAX_CHARS_def)
qed

lemma sanitize_item_image:
  assumes "get_prop entry (js ''type'') = JStr (js ''image'')"
  shows "sanitize_item (JObj entry) =
     JObj (AList.update (js ''omitted'') (JBool True)
            (AList.update (js ''bytes'')
               (case get_prop entry (js ''data'') of
                  JStr dt \<Rightarrow> if dt \<noteq> [] then JNum (int (length dt)) else JUndefined
                | _ \<Rightarrow> JUndefined)
               (AList.delete (js ''data'') entry)))"
  using assms
  by (simp add: sanitize_item_def str_of_def js_keys_distinct Let_def split: jsval.splits)

lemma sanitize_item_other:
  assumes "\<not> (\<exists>entry. item = JObj entry \<and>
      (get_prop entry (js ''type'') = JStr (js ''image'') \<or>
       get_prop entry (js ''type'') = JStr (js ''text'') \<and> (\<exists>t. get_prop entry (js ''text'') = JStr t)))"
  shows "sanitize_item item = item"
  using assms
  by (auto simp: sanitize_item_def str_of_def Let_def split: jsval.splits option.splits)

text \<open>
  C7, as the code has it. \<open>sanitizeToolResult\<close> rewrites the items of an array
  \<open>content\<close> of an object and nothing else. A text item whose text is a string longer
  than 8000 code units has it cut to 8000 with the truncation marker appended; a shorter
  one is unchanged. Every image item, with or without data, loses its \<open>data\<close> field and
  gets \<open>omitted: true\<close> and a \<open>bytes\<close> field, which is the length of the data when that is
  a non-empty string and undefined otherwise. All other fields of these items, and all
  other items, are passed through unchanged.
\<close>

theorem sanitize_tool_result_items:
  "(\<forall>rec content. result = JObj rec \<and> get_prop rec (js ''content'') = JArr content \<longrightarrow>
      sanitizeToolResult result =
        JObj (AList.update (js ''content'') (JArr (map sanitize_item content)) rec) \<and>
      (\<forall>k. k \<noteq> js ''content'' \<longrightarrow>
         js_prop (sanitizeToolResult result) k = js_prop result k)) \<and>
   (\<not> (\<exists>rec content. result = JObj rec \<and> get_prop rec (js ''content'') = JArr content) \<longrightarrow>
      sanitizeToolResult result = result) \<and>
   (\<forall>entry t. item = JObj entry \<and> get_prop entry (js ''type'') = JStr (js ''text'') \<and>
        get_prop entry (js ''text'') = JStr t \<longrightarrow>
      js_prop (sanitize_item item) (js ''text'') =
        JStr (if length t \<le> 8000 then t else take 8000 t @ TRUNCATION_MARKER) \<and>
      (\<forall>k. k \<noteq> js ''text'' \<longrightarrow> js_prop (sanitize_item item) k = js_prop item k) \<and>
      (length t \<le> 8000 \<longrightarrow> sanitize_item item = item)) \<and>
   (\<forall>entry. item = JObj entry \<and> get_prop entry (js ''type'') = JStr (js ''image'') \<longrightarrow>
      (\<exists>cleaned. sanitize_item item = JObj cleaned \<and> js ''data'' \<notin> fst ` set cleaned) \<and>
      js_prop (sanitize_item item) (js ''data'') = JUndefined \<and>
      js_prop (sanitize_item item) (js ''omitted'') = JBool True \<and>
      js_prop (sanitize_item item) (js ''bytes'') =
        (case get_prop entry (js ''data'') of
           JStr dt \<Rightarrow> if dt \<noteq> [] then JNum (int (length dt)) else JUndefined
         | _ \<Rightarrow> JUndefined) \<and>
      (\<forall>k. k \<noteq> js ''data'' \<and> k \<noteq> js ''bytes'' \<and> k \<noteq> js ''omitted'' \<longrightarrow>
         js_prop (sanitize_item item) k = js_prop item k)) \<and>
   (\<not> (\<exists>entry. item = JObj entry \<and>
         (get_prop entry (js ''type'') = JStr (js ''image'') \<or>
          get_prop entry (js ''type'') = JStr (js ''text'') \<and> (\<exists>t. get_prop entry (js ''text'') = JStr t))) \<longrightarrow>
      sanitize_item item = item)"
proof (intro conjI allI impI)
  fix rec content
  assume "result = JObj rec \<and> get_prop rec (js ''content'') = JArr content"
  then show "sanitizeToolResult result =
        JObj (AList.update (js ''content'') (JArr (map sanitize_item content)) rec)"
    by (simp add: sanitizeToolResult_def)
next
  fix rec content k
  assume "result = JObj rec \<and> get_prop rec (js ''content'') = JArr content" "k \<noteq> js ''content''"
  then show "js_prop (sanitizeToolResult result) k = js_prop result k"
    by (simp add: sanitizeToolResult_def js_prop_def get_prop_update)
next
  assume "\<not> (\<exists>rec content. result = JObj rec \<and> get_prop rec (js ''content'') = JArr content)"
  then show "sanitizeToolResult result = result"
    by (auto simp: sanitizeToolResult_def split: jsval.splits)
next
  fix entry t
  assume a: "item = JObj entry \<and> get_prop entry (js ''type'') = JStr (js ''text'') \<and>
        get_prop entry (js ''text'') = JStr t"
  then show "js_prop (sanitize_item item) (js ''text'') =
        JStr (if length t \<le> 8000 then t else take 8000 t @ TRUNCATION_MARKER)"
    by (simp add: sanitize_item_text js_prop_def get_prop_update truncateToolText_def
        TOOL_RESULT_MAX_CHARS_def)
  show "length t \<le> 8000 \<Longrightarrow> sanitize_item item = item"
    using a sanitize_item_text_short by blast
  fix k
  assume "k \<noteq> js ''text''"
  then show "js_prop (sanitize_item item) k = js_prop item k"
    using a by (simp add: sanitize_item_text js_prop_def get_prop_update)
next
  fix entry
  assume a: "item = JObj entry \<and> get_prop entry (js ''type'') = JStr (js ''image'')"
  then have s: "sanitize_item item =
     JObj (AList.update (js ''omitted'') (JBool True)
            (AList.update (js ''bytes'')
               (case get_prop entry (js ''data'') of
                  JStr dt \<Rightarrow> if dt \<noteq> [] then JNum (int (length dt)) else JUndefined
                | _ \<Rightarrow> JUndefined)
               (AList.delete (js ''data'') entry)))"
    using sanitize_item_image by blast
  show "\<exists>cleaned. sanitize_item item = JObj cleaned \<and> js ''data'' \<notin> fst ` set cleaned"
    unfolding s by (simp add: dom_update delete_notin_dom js_keys_distinct)
  show "js_prop (sanitize_item item) (js ''data'') = JUndefined"
    unfolding s by (simp add: js_prop_def get_prop_update get_prop_delete js_keys_distinct)
  show "js_prop (sanitize_item item) (js ''omitted'') = JBool True"
    unfolding s by (simp add: js_prop_def get_prop_update)
  show "js_prop (sanitize_item item) (js ''bytes'') =
        (case get_prop entry (js ''data'') of
           JStr dt \<Rightarrow> if dt \<noteq> [] then JNum (int (length dt)) else JUndefined
         | _ \<Rightarrow> JUndefined)"
    unfolding s by (simp add: js_prop_def get_prop_update js_keys_distinct)
  fix k
  assume "k \<noteq> js ''data'' \<and> k \<noteq> js ''bytes'' \<and> k \<noteq> js ''omitted''"
  then show "js_prop (sanitize_item item) k = js_prop item k"
    unfolding s using a by (simp add: js_prop_def get_prop_update get_prop_delete)
next
  assume "\<not> (\<exists>entry. item = JObj entry \<and>
         (get_prop entry (js ''type'') = JStr (js ''image'') \<or>
          get_prop entry (js ''type'') = JStr (js ''text'') \<and> (\<exists>t. get_prop entry (js ''text'') = JStr t)))"
  then show "sanitize_item item = item" by (rule sanitize_item_other)
qed


theorem sanitize_tool_result_items_witness:
  "js_prop (sanitize_item example_long_text) (js ''text'') =
     JStr (replicate 8000 0x61 @ TRUNCATION_MARKER) \<and>
   js_prop (sanitize_item example_image) (js ''data'') = JUndefined \<and>
   js_prop (sanitize_item example_image) (js ''bytes'') = JNum 4 \<and>
   js_prop (sanitize_item example_image) (js ''omitted'') = JBool True \<and>
   js_prop (sanitize_item example_image) (js ''mimeType'') = JStr (js ''image/png'') \<and>
   sanitize_item (JStr (js ''plain'')) = JStr (js ''plain'') \<and>
   sanitizeToolResult (JObj [(js ''content'', JArr [example_image])]) =
     JObj [(js ''content'', JArr [sanitize_item example_image])]"
proof -
  have lt: "example_long_text = JObj [(js ''type'', JStr (js ''text'')), (js ''text'', JStr (replicate 8001 0x61))] \<and>
      get_prop [(js ''type'', JStr (js ''text'')), (js ''text'', JStr (replicate 8001 0x61))] (js ''type'') = JStr (js ''text'') \<and>
      get_prop [(js ''type'', JStr (js ''text'')), (js ''text'', JStr (replicate 8001 0x61))] (js ''text'') = JStr (replicate 8001 0x61)"
    by (simp add: example_long_text_def get_prop_def js_def code_unit_def)
  have a: "js_prop (sanitize_item example_long_text) (js ''text'') =
     JStr (replicate 8000 0x61 @ TRUNCATION_MARKER)"
    using sanitize_tool_result_items [of JNull example_long_text] lt by fastforce
  have im: "example_image = JObj [(js ''type'', JStr (js ''image'')), (js ''data'', JStr (js ''QUJD'')),
                         (js ''mimeType'', JStr (js ''image/png''))] \<and>
      get_prop [(js ''type'', JStr (js ''image'')), (js ''data'', JStr (js ''QUJD'')),
                         (js ''mimeType'', JStr (js ''image/png''))] (js ''type'') = JStr (js ''image'')"
    by (simp add: example_image_def get_prop_def js_def code_unit_def)
  note i = sanitize_tool_result_items [of JNull example_image]
  have b: "js_prop (sanitize_item example_image) (js ''data'') = JUndefined"
    using i im by blast
  have c: "js_prop (sanitize_item example_image) (js ''omitted'') = JBool True"
    using i im by blast
  have "js_prop (sanitize_item example_image) (js ''bytes'') =
        (case get_prop [(js ''type'', JStr (js ''image'')), (js ''data'', JStr (js ''QUJD'')),
                         (js ''mimeType'', JStr (js ''image/png''))] (js ''data'') of
           JStr dt \<Rightarrow> if dt \<noteq> [] then JNum (int (length dt)) else JUndefined
         | _ \<Rightarrow> JUndefined)"
    using i im by blast
  then have d: "js_prop (sanitize_item example_image) (js ''bytes'') = JNum 4"
    by (simp add: get_prop_def js_def code_unit_def)
  have "js ''mimeType'' \<noteq> js ''data'' \<and> js ''mimeType'' \<noteq> js ''bytes'' \<and> js ''mimeType'' \<noteq> js ''omitted''"
    by (simp add: js_def code_unit_def)
  then have "js_prop (sanitize_item example_image) (js ''mimeType'') =
      js_prop example_image (js ''mimeType'')"
    using i im by blast
  then have e: "js_prop (sanitize_item example_image) (js ''mimeType'') = JStr (js ''image/png'')"
    by (simp add: example_image_def js_prop_def get_prop_def js_def code_unit_def)
  have f: "sanitize_item (JStr (js ''plain'')) = JStr (js ''plain'')"
    using sanitize_tool_result_items [of JNull "JStr (js ''plain'')"] by blast
  have "get_prop [(js ''content'', JArr [example_image])] (js ''content'') = JArr [example_image]"
    by (simp add: get_prop_def)
  then have "sanitizeToolResult (JObj [(js ''content'', JArr [example_image])]) =
     JObj (AList.update (js ''content'') (JArr (map sanitize_item [example_image]))
       [(js ''content'', JArr [example_image])])"
    using sanitize_tool_result_items [of "JObj [(js ''content'', JArr [example_image])]" JNull]
    by blast
  then have g: "sanitizeToolResult (JObj [(js ''content'', JArr [example_image])]) =
     JObj [(js ''content'', JArr [sanitize_item example_image])]"
    by simp
  show ?thesis using a b c d e f g by blast
qed

text \<open>
  An image item without a data field is not passed through unchanged: it comes back
  with \<open>bytes: undefined\<close> and \<open>omitted: true\<close>.
\<close>

theorem sanitize_bare_image_counterexample:
  "sanitize_item example_bare_image =
     JObj [(js ''type'', JStr (js ''image'')), (js ''bytes'', JUndefined), (js ''omitted'', JBool True)] \<and>
   sanitize_item example_bare_image \<noteq> example_bare_image \<and>
   sanitizeToolResult (JObj [(js ''content'', JArr [example_bare_image])]) \<noteq>
     JObj [(js ''content'', JArr [example_bare_image])]"
  by (simp add: example_bare_image_def sanitize_item_def sanitizeToolResult_def get_prop_def
      str_of_def js_def code_unit_def)

section \<open>Prompt failure, cleanup and abort\<close>

lemma abortRun_fields [simp]:
  "aborted (abortRun r)"
  "abortTimer (abortRun r) = abortTimer r"
  "abortWarnTimer (abortRun r) = abortWarnTimer r"
  "hasSignal (abortRun r) = hasSignal r"
  "listening (abortRun r) = listening r"
  "subscribed (abortRun r) = subscribed r"
  by (simp_all add: abortRun_def)

lemma env_step_aborted:
  "aborted (runs w h) \<Longrightarrow> aborted (runs (env_step sid h ev w) h)"
  by (cases ev) (simp_all add: on_timeout_def on_warn_timer_def on_signal_def handle_abort_def Let_def)

lemma env_steps_Cons: "env_steps sid h (ev # evs) w = env_steps sid h evs (env_step sid h ev w)"
  by (simp add: env_steps_def)

lemma env_steps_Nil [simp]: "env_steps sid h [] w = w"
  by (simp add: env_steps_def)

lemma env_steps_aborted:
  "aborted (runs w h) \<Longrightarrow> aborted (runs (env_steps sid h evs w) h)"
  by (induction evs arbitrary: w) (simp_all add: env_steps_Cons env_step_aborted)

lemma env_step_timer:
  "abortTimer (runs w h) = Armed \<or> aborted (runs w h) \<Longrightarrow>
   abortTimer (runs (env_step sid h ev w) h) = Armed \<or> aborted (runs (env_step sid h ev w) h)"
  by (cases ev) (auto simp: on_timeout_def on_warn_timer_def on_signal_def handle_abort_def Let_def)

lemma env_step_timeout:
  "abortTimer (runs w h) = Armed \<or> aborted (runs w h) \<Longrightarrow>
   aborted (runs (env_step sid h TimeoutFires w) h)"
  by (auto simp: on_timeout_def Let_def)

lemma env_steps_timeout:
  "abortTimer (runs w h) = Armed \<or> aborted (runs w h) \<Longrightarrow> TimeoutFires \<in> set evs \<Longrightarrow>
   aborted (runs (env_steps sid h evs w) h)"
proof (induction evs arbitrary: w)
  case Nil
  then show ?case by simp
next
  case (Cons ev evs)
  show ?case
  proof (cases "ev = TimeoutFires")
    case True
    then have "aborted (runs (env_step sid h ev w) h)"
      using Cons.prems(1) env_step_timeout by blast
    then show ?thesis by (simp add: env_steps_Cons env_steps_aborted)
  next
    case False
    then have "TimeoutFires \<in> set evs" using Cons.prems(2) by auto
    then show ?thesis
      using Cons.IH [OF env_step_timer [OF Cons.prems(1)]] by (simp add: env_steps_Cons)
  qed
qed

text \<open>
  The test before the rethrow is \<open>promptError && !aborted\<close>, with \<open>null\<close> standing for
  "no error": a prompt that rejects with a falsy value (\<open>undefined\<close>, \<open>null\<close>, \<open>0\<close>, the
  empty string) is treated as one that resolved.
\<close>

lemma falsy_rejection_returns:
  assumes "\<not> truthy err"
  shows "run_prompt d p sid h (Some (evs1, PromptRejects err)) (Some evs2) tms texts w =
         run_prompt d p sid h (Some (evs1, PromptResolves)) (Some evs2) tms texts w"
  using assms by (simp add: run_prompt_def Let_def)

text \<open>
  C3, as the code has it. Take a run whose prompt call fails, with any rejection value,
  and whose wait for the compaction retry ends. Whatever happened while the run waited,
  the run comes back, and its last actions are the cleanup (the abort timer cleared, the
  warning timer cleared if it was set, the interpreter unsubscribed, the debouncer
  flushed, the registry entry deleted if it is still this run's, the session disposed,
  the abort listener removed if there is a signal) followed by one exit. The captured
  value is thrown again exactly when it is truthy (as every error object is) and the
  \<open>aborted\<close> flag is false; otherwise a result is returned that carries the flag. After the
  cleanup no timer is armed, nothing is subscribed or listening, the session is
  disposed; the registry has lost the entry of this session id if it was this run's and
  is otherwise what it was, and no other run has changed. If the timeout fires while the
  prompt is awaited, the flag is true, so the caller gets a result with \<open>aborted: true\<close>
  and no error. When the prompt or the wait for the compaction retry never settles, the
  run never comes back: there is no cleanup, no result and no error.
\<close>

theorem prompt_failure_cleanup_then_rethrow:
  "let w2 = env_steps sid h evs2 (env_steps sid h evs1 w);
       r2 = runs w2 h;
       owner = (ACTIVE_EMBEDDED_RUNS w2 sid = Some h);
       rethrow = (truthy err \<and> \<not> aborted r2)
   in \<exists>w'. run_prompt d p sid h (Some (evs1, PromptRejects err)) (Some evs2) tms texts w =
          Some (w', if rethrow then Thrown err
                    else Returned (assemble_result d p tms texts (messages (sess r2)) (aborted r2))) \<and>
        aborted (runs w' h) = aborted r2 \<and>
        trace (runs w' h) =
          trace r2 @ [ClearAbortTimer] @
          (if abortWarnTimer r2 \<noteq> None then [ClearWarnTimer] else []) @
          [Unsubscribe, FlushDebouncer] @
          (if owner then [RegistryDelete] else []) @
          [SessionDispose] @
          (if hasSignal r2 then [RemoveAbortListener] else []) @
          [if rethrow then Rethrow else ReturnResult] \<and>
        abortTimer (runs w' h) \<noteq> Armed \<and>
        abortWarnTimer (runs w' h) = None \<and>
        \<not> subscribed (runs w' h) \<and>
        disposed (sess (runs w' h)) \<and>
        \<not> listening (runs w' h) \<and>
        ACTIVE_EMBEDDED_RUNS w' =
          (if owner then (ACTIVE_EMBEDDED_RUNS w2)(sid := None) else ACTIVE_EMBEDDED_RUNS w2) \<and>
        ACTIVE_EMBEDDED_RUNS w' sid \<noteq> Some h \<and>
        (\<forall>h'. h' \<noteq> h \<longrightarrow> runs w' h' = runs w2 h') \<and>
        (abortTimer (runs w h) = Armed \<and> TimeoutFires \<in> set evs1 \<longrightarrow>
           aborted r2 \<and> \<not> rethrow \<and>
           result_aborted (assemble_result d p tms texts (messages (sess r2)) (aborted r2))) \<and>
        run_prompt d p sid h (Some (evs1, PromptRejects err)) None tms texts w = None \<and>
        run_prompt d p sid h None (Some evs2) tms texts w = None"
proof -
  define w2 where "w2 = env_steps sid h evs2 (env_steps sid h evs1 w)"
  have t: "aborted (runs w2 h)" if "abortTimer (runs w h) = Armed \<and> TimeoutFires \<in> set evs1"
    unfolding w2_def using that env_steps_timeout env_steps_aborted by blast
  show ?thesis
    unfolding Let_def w2_def [symmetric]
    using t
    by (cases "aborted (runs w2 h)"; cases "truthy err")
      (auto simp: run_prompt_def cleanup_def log_exit_def Let_def w2_def [symmetric]
        assemble_result_def)
qed

theorem prompt_failure_cleanup_then_rethrow_witness:
  "map_option snd (run_prompt example_deps example_params (js ''s1'') 0
     (Some ([TimeoutFires], PromptRejects (JStr (js ''boom'')))) (Some []) [] [] example_fresh_world) =
     Some (Returned \<lparr> result_payloads = None, result_aborted = True \<rparr>) \<and>
   map_option snd (run_prompt example_deps example_params (js ''s1'') 0
     (Some ([], PromptRejects (JStr (js ''boom'')))) (Some []) [] [] example_fresh_world) =
     Some (Thrown (JStr (js ''boom''))) \<and>
   map_option snd (run_prompt example_deps example_params (js ''s1'') 0
     (Some ([], PromptRejects JUndefined)) (Some []) [] [] example_fresh_world) =
     Some (Returned \<lparr> result_payloads = None, result_aborted = False \<rparr>)"
proof -
  have t: "truthy (JStr (js ''boom''))" "\<not> truthy JUndefined" by (simp_all add: js_def)
  have a: "aborted (runs (env_steps (js ''s1'') 0 [] (env_steps (js ''s1'') 0 [TimeoutFires]
      example_fresh_world)) 0)"
    by (simp add: env_steps_def example_fresh_world_def begin_run_def on_timeout_def Let_def)
  have b: "\<not> aborted (runs (env_steps (js ''s1'') 0 [] (env_steps (js ''s1'') 0 []
      example_fresh_world)) 0)"
    by (simp add: example_fresh_world_def begin_run_def Let_def)
  have m: "messages (sess (runs (env_steps (js ''s1'') 0 [] (env_steps (js ''s1'') 0 [TimeoutFires]
      example_fresh_world)) 0)) = []"
    "messages (sess (runs (env_steps (js ''s1'') 0 [] (env_steps (js ''s1'') 0 []
      example_fresh_world)) 0)) = []"
    by (simp_all add: env_steps_def example_fresh_world_def begin_run_def on_timeout_def Let_def
        abortRun_def example_session_def)
  have r: "assemble_result example_deps example_params [] [] [] ab =
      \<lparr> result_payloads = None, result_aborted = ab \<rparr>" for ab
    by (simp add: assemble_result_def replyItems_def error_items_def lastAssistant_def
        payloads_of_def inlineToolResults_def)
  from prompt_failure_cleanup_then_rethrow [where sid = "js ''s1''" and h = 0 and ?evs2.0 = "[]"
      and ?evs1.0 = "[TimeoutFires]" and w = example_fresh_world and d = example_deps
      and p = example_params and tms = "[]" and texts = "[]" and err = "JStr (js ''boom'')"] a r m
  have one: "map_option snd (run_prompt example_deps example_params (js ''s1'') 0
     (Some ([TimeoutFires], PromptRejects (JStr (js ''boom'')))) (Some []) [] [] example_fresh_world) =
     Some (Returned \<lparr> result_payloads = None, result_aborted = True \<rparr>)"
    unfolding Let_def by auto
  from prompt_failure_cleanup_then_rethrow [where sid = "js ''s1''" and h = 0 and ?evs2.0 = "[]"
      and ?evs1.0 = "[]" and w = example_fresh_world and d = example_deps
      and p = example_params and tms = "[]" and texts = "[]" and err = "JStr (js ''boom'')"] b t
  have two: "map_option snd (run_prompt example_deps example_params (js ''s1'') 0
     (Some ([], PromptRejects (JStr (js ''boom'')))) (Some []) [] [] example_fresh_world) =
     Some (Thrown (JStr (js ''boom'')))"
    unfolding Let_def by auto
  from prompt_failure_cleanup_then_rethrow [where sid = "js ''s1''" and h = 0 and ?evs2.0 = "[]"
      and ?evs1.0 = "[]" and w = example_fresh_world and d = example_deps
      and p = example_params and tms = "[]" and texts = "[]" and err = JUndefined] b r m
  have three: "map_option snd (run_prompt example_deps example_params (js ''s1'') 0
     (Some ([], PromptRejects JUndefined)) (Some []) [] [] example_fresh_world) =
     Some (Returned \<lparr> result_payloads = None, result_aborted = False \<rparr>)"
    unfolding Let_def by auto
  show ?thesis using one two three by blast
qed

text \<open>
  A run that is not aborted and whose prompt rejects with the empty string returns a
  result: the rejection is not thrown again. And a run whose timeout fired while the
  prompt was awaited, but whose wait for the compaction retry never ends, gives the
  caller nothing: no result with \<open>aborted: true\<close>, and no cleanup.
\<close>

theorem falsy_rejection_counterexample:
  "\<not> aborted (runs example_fresh_world 0) \<and>
   map_option snd (run_prompt example_deps example_params (js ''s1'') 0
     (Some ([], PromptRejects (JStr []))) (Some []) [] [] example_fresh_world) =
     Some (Returned \<lparr> result_payloads = None, result_aborted = False \<rparr>) \<and>
   run_prompt example_deps example_params (js ''s1'') 0
     (Some ([TimeoutFires], PromptRejects (JStr (js ''boom'')))) None [] [] example_fresh_world = None"
  by (simp add: run_prompt_def env_steps_def cleanup_def log_exit_def example_fresh_world_def
      begin_run_def Let_def assemble_result_def replyItems_def error_items_def lastAssistant_def
      payloads_of_def inlineToolResults_def example_session_def)

end
